theory Spec2Isabelle
  imports Main "HOL-Library.Word" "HOL-Library.AList" "HOL-Library.Signed_Division"
begin

unbundle bit_operations_syntax

section \<open>Library functions the service calls\<close>

text \<open>
  The service is two Go files: \<^verbatim>\<open>hash_pass/main.go\<close> reads the listen port from the
  command line, \<^verbatim>\<open>hash_pass/server/server.go\<close> holds the shared state and the three
  HTTP handlers. Go's \<^verbatim>\<open>int\<close> is taken as 64 bits wide (the build target of the
  repository), \<^verbatim>\<open>int64\<close> is a 64-bit word read as two's complement, a Go string is a
  list of bytes.
\<close>

type_synonym int64 = "64 word"
type_synonym byte = "8 word"

subsection \<open>strconv\<close>

definition digits :: string where
  "digits = ''0123456789''"

text \<open>
  \<^verbatim>\<open>formatBits\<close> of package strconv, base 10: the decimal digits of an unsigned
  magnitude, most significant first, no leading zero.
\<close>

function formatBits :: "nat \<Rightarrow> string" where
  "formatBits u = (if u < 10 then [digits ! u] else formatBits (u div 10) @ [digits ! (u mod 10)])"
  by pat_completeness auto
termination
  by (relation "measure id") auto

declare formatBits.simps [simp del]

text \<open>
  \<^verbatim>\<open>strconv.FormatInt(i, 10)\<close>: a negative value is written as a minus sign and the
  digits of its magnitude, taken as an unsigned 64-bit number.
\<close>

definition FormatInt :: "int64 \<Rightarrow> string" where
  "FormatInt i = (if sint i < 0 then CHR ''-'' # formatBits (unat (- i)) else formatBits (unat i))"

definition isDigit :: "char \<Rightarrow> bool" where
  "isDigit c = (c \<in> set digits)"

definition digitVal :: "char \<Rightarrow> nat" where
  "digitVal c = of_char c - 48"

definition parseDigits :: "string \<Rightarrow> nat option" where
  "parseDigits s =
     (if s = [] \<or> \<not> list_all isDigit s then None
      else Some (fold (\<lambda>c n. n * 10 + digitVal c) s 0))"

text \<open>
  \<^verbatim>\<open>strconv.Atoi\<close>: an optional sign, then one or more decimal digits and nothing
  else; a value outside the range of \<^verbatim>\<open>int\<close> is an error, as is every other text.
\<close>

definition Atoi :: "string \<Rightarrow> int option" where
  "Atoi s =
     (case s of
        [] \<Rightarrow> None
      | c # cs \<Rightarrow>
          (case parseDigits (if c = CHR ''-'' \<or> c = CHR ''+'' then cs else s) of
             None \<Rightarrow> None
           | Some n \<Rightarrow>
               (let v = (if c = CHR ''-'' then - int n else int n)
                in if - (2 ^ 63) \<le> v \<and> v < 2 ^ 63 then Some v else None)))"

section \<open>main.go: the listen port\<close>

definition minPort :: int where "minPort = 1024"
definition maxPort :: int where "maxPort = 65535"
definition ListenPort :: int where "ListenPort = 8080"

text \<open>
  What \<^verbatim>\<open>main\<close> does with \<^verbatim>\<open>os.Args\<close>: it leaves through \<^verbatim>\<open>syscall.Exit\<close> after
  printing a message, or it calls \<^verbatim>\<open>JCServer.StartServer\<close> with a port.
\<close>

datatype outcome = Exit string int | StartServer int

definition main :: "string list \<Rightarrow> outcome" where
  "main Args =
     (if length Args > 1 then
        (case Atoi (Args ! 1) of
           None \<Rightarrow> Exit (''Invalid port value '' @ [CHR 0x27] @ Args ! 1 @ [CHR 0x27, CHR 0x0A]) (- 1)
         | Some port \<Rightarrow>
             if port \<le> minPort \<or> port > maxPort
             then Exit (''Port must be in range of 1024 < port < 65536'' @ [CHR 0x0A]) (- 1)
             else StartServer port)
      else StartServer ListenPort)"


section \<open>server.go: library calls\<close>

subsection \<open>encoding/base64\<close>

definition encodeURL :: string where
  "encodeURL = ''ABCDEFGHIJKLMNOPQRSTUVWXYZabcdefghijklmnopqrstuvwxyz0123456789-_''"

text \<open>
  \<^verbatim>\<open>base64.URLEncoding.EncodeToString\<close>: three bytes become four characters of the
  URL alphabet; a last group of one or two bytes is padded with \<^verbatim>\<open>=\<close>.
\<close>

fun EncodeToString :: "byte list \<Rightarrow> string" where
  "EncodeToString (a # b # c # src) =
     (let val = unat a * 65536 + unat b * 256 + unat c
      in [encodeURL ! (val div 262144 mod 64), encodeURL ! (val div 4096 mod 64),
          encodeURL ! (val div 64 mod 64), encodeURL ! (val mod 64)] @ EncodeToString src)"
| "EncodeToString [a, b] =
     (let val = unat a * 65536 + unat b * 256
      in [encodeURL ! (val div 262144 mod 64), encodeURL ! (val div 4096 mod 64),
          encodeURL ! (val div 64 mod 64), CHR ''=''])"
| "EncodeToString [a] =
     (let val = unat a * 65536
      in [encodeURL ! (val div 262144 mod 64), encodeURL ! (val div 4096 mod 64),
          CHR ''='', CHR ''=''])"
| "EncodeToString [] = []"

subsection \<open>crypto/sha512\<close>

text \<open>
  \<^verbatim>\<open>sha512.Sum512\<close> is a function of the Go library from a byte sequence to a
  \<^verbatim>\<open>[64]byte\<close> array. Its algorithm is not part of the repository: it is a parameter
  of the model, and the array is a 512-bit word. \<^verbatim>\<open>sum[:]\<close> reads it as its 64 bytes,
  most significant first.
\<close>

type_synonym hash = "byte list \<Rightarrow> 512 word"

definition slice :: "512 word \<Rightarrow> byte list" where
  "slice digest = map (\<lambda>i. ucast (drop_bit (8 * (63 - i)) digest)) [0..<64]"

definition bytes :: "string \<Rightarrow> byte list" where
  "bytes s = map of_char s"

subsection \<open>fmt, strings and net/http\<close>

text \<open>
  What reaches the client. \<^verbatim>\<open>fmt.Fprintf(w, format)\<close> with no operand writes a
  format that has no \<^verbatim>\<open>%\<close> as it is; what it makes of a \<^verbatim>\<open>%\<close> directive is left
  open, the format is kept under \<open>Directives\<close>.
\<close>

datatype written = Text string | Directives string

definition Fprintf :: "string \<Rightarrow> written" where
  "Fprintf format = (if CHR ''%'' \<in> set format then Directives format else Text format)"

definition TrimPrefix :: "string \<Rightarrow> string \<Rightarrow> string" where
  "TrimPrefix s prefix = (if take (length prefix) s = prefix then drop (length prefix) s else s)"

record request =
  Method :: string
  Path :: string
  Form :: "(string \<times> string) list"

text \<open>\<^verbatim>\<open>r.FormValue(key)\<close>: the first value of the field, the empty string without one.\<close>

definition FormValue :: "request \<Rightarrow> string \<Rightarrow> string" where
  "FormValue r key = (case map_of (Form r) key of None \<Rightarrow> [] | Some v \<Rightarrow> v)"

record response =
  Status :: nat
  Body :: written

definition StatusOK :: nat where "StatusOK = 200"
definition StatusBadRequest :: nat where "StatusBadRequest = 400"
definition StatusMethodNotAllowed :: nat where "StatusMethodNotAllowed = 405"
definition StatusServiceUnavailable :: nat where "StatusServiceUnavailable = 503"

definition MethodGet :: string where "MethodGet = ''GET''"
definition MethodPost :: string where "MethodPost = ''POST''"

text \<open>\<^verbatim>\<open>http.StatusText\<close>, for the one code the handlers pass to it.\<close>

definition StatusText :: "nat \<Rightarrow> string" where
  "StatusText code = (if code = StatusMethodNotAllowed then ''Method Not Allowed'' else [])"

text \<open>\<^verbatim>\<open>http.Error(w, error, code)\<close>: the status line and the message with a newline.\<close>

definition http_Error :: "string \<Rightarrow> nat \<Rightarrow> response" where
  "http_Error err code = \<lparr>Status = code, Body = Text (err @ [CHR 0x0A])\<rparr>"

text \<open>A handler that writes without setting a status answers 200.\<close>

definition reply :: "written \<Rightarrow> response" where
  "reply b = \<lparr>Status = StatusOK, Body = b\<rparr>"

section \<open>server.go: state and handlers\<close>

definition HashPath :: string where "HashPath = ''/hash''"
definition PasswordKey :: string where "PasswordKey = ''password''"
definition ErrInvalidId :: string where "ErrInvalidId = ''Error: Invalid task Id''"
definition ErrPassword :: string where "ErrPassword = ''Error: Missing or invalid password''"
definition ErrShutdown :: string where "ErrShutdown = ''Service is shutting down, request rejected''"
definition MsgFarewell :: string where
  "MsgFarewell = ''All requests have been processed, terminating service.''"

text \<open>
  The package variables. \<open>goroutines\<close> is not a variable of the program: it holds the
  calls \<^verbatim>\<open>go delayAndUpdate(num, pw)\<close> that were started and have not yet written
  their result, each with its two arguments.
\<close>

record state =
  requestID :: int64
  resultMap :: "(string \<times> string) list"
  elapsedTime :: int64
  bShutdown :: bool
  goroutines :: "(string \<times> string) list"

definition init :: state where
  "init = \<lparr>requestID = 0, resultMap = [], elapsedTime = 0, bShutdown = False, goroutines = []\<rparr>"

text \<open>The value \<^verbatim>\<open>delayAndUpdate\<close> computes from the password.\<close>

definition transform :: "hash \<Rightarrow> string \<Rightarrow> string" where
  "transform Sum512 pword = EncodeToString (slice (Sum512 (bytes pword)))"

text \<open>
  \<^verbatim>\<open>delayAndUpdate\<close> after its sleep: the assignment \<^verbatim>\<open>resultMap[requestId] = sha\<close>
  adds the key or replaces its value.
\<close>

definition delayAndUpdate :: "hash \<Rightarrow> string \<Rightarrow> string \<Rightarrow> state \<Rightarrow> state" where
  "delayAndUpdate Sum512 requestId pword s =
     s\<lparr>resultMap := AList.update requestId (transform Sum512 pword) (resultMap s)\<rparr>"

text \<open>
  \<^verbatim>\<open>doHash\<close>. The third argument is what \<^verbatim>\<open>time.Since(startTime).Microseconds()\<close>
  reads for this call. Reading a key that the map does not hold gives the empty string.
\<close>

definition doHash :: "state \<Rightarrow> request \<Rightarrow> int64 \<Rightarrow> response \<times> state" where
  "doHash s r micros =
     (if bShutdown s then (http_Error ErrShutdown StatusServiceUnavailable, s)
      else if Method r = MethodGet then
        (let id = TrimPrefix (Path r) (HashPath @ ''/'');
             result = (case map_of (resultMap s) id of None \<Rightarrow> [] | Some v \<Rightarrow> v)
         in if length result > 0 then (reply (Fprintf result), s)
            else (http_Error ErrInvalidId StatusBadRequest, s))
      else if Method r = MethodPost then
        (let pw = FormValue r PasswordKey
         in if length pw = 0 then (http_Error ErrPassword StatusBadRequest, s)
            else
              (let s1 = s\<lparr>requestID := requestID s + 1\<rparr>;
                   num = FormatInt (requestID s1);
                   s2 = s1\<lparr>goroutines := goroutines s1 @ [(num, pw)]\<rparr>;
                   s3 = s2\<lparr>elapsedTime := elapsedTime s2 + micros\<rparr>
               in (reply (Fprintf num), s3)))
      else (http_Error (StatusText StatusMethodNotAllowed) StatusMethodNotAllowed, s))"

record RequestStat =
  Total :: int64
  Average :: int64

text \<open>\<^verbatim>\<open>json.Marshal\<close> of a \<^verbatim>\<open>RequestStat\<close>, with the field names of its tags.\<close>

definition Marshal :: "RequestStat \<Rightarrow> string" where
  "Marshal stats =
     [CHR ''{'', CHR 0x22] @ ''total'' @ [CHR 0x22, CHR '':''] @ FormatInt (Total stats) @
     [CHR '','', CHR 0x22] @ ''average'' @ [CHR 0x22, CHR '':''] @ FormatInt (Average stats) @
     [CHR ''}'']"

text \<open>
  Go's \<^verbatim>\<open>/\<close> on \<^verbatim>\<open>int64\<close> truncates towards zero, and the one quotient that does
  not fit, of the least value by \<open>-1\<close>, wraps around.
\<close>

definition quo :: "int64 \<Rightarrow> int64 \<Rightarrow> int64" where
  "quo x y = word_of_int (sint x sdiv sint y)"

text \<open>The statistics \<^verbatim>\<open>getStats\<close> serialises.\<close>

definition snapshot :: "state \<Rightarrow> RequestStat" where
  "snapshot s =
     (let stats = \<lparr>Total = 0, Average = 0\<rparr>;
          stats = stats\<lparr>Total := requestID s\<rparr>;
          et = elapsedTime s
      in if Total stats \<noteq> 0 then stats\<lparr>Average := quo et (Total stats)\<rparr> else stats)"

definition getStats :: "state \<Rightarrow> request \<Rightarrow> response \<times> state" where
  "getStats s r =
     (if Method r \<noteq> MethodGet
      then (http_Error (StatusText StatusMethodNotAllowed) StatusMethodNotAllowed, s)
      else if bShutdown s
      then (http_Error ''Service is shutting down, request rejected'' StatusServiceUnavailable, s)
      else (reply (Text (Marshal (snapshot s))), s))"

section \<open>server.go: the handlers running side by side\<close>

text \<open>
  The handlers run on one goroutine per request. The model interleaves them as whole
  steps:
  \<^item> \<open>Hash r micros\<close> and \<open>Stats r\<close>: one call of \<^verbatim>\<open>doHash\<close>, of \<^verbatim>\<open>getStats\<close>;
  \<^item> \<open>InFlight r micros\<close>: a call of \<^verbatim>\<open>doHash\<close> that read \<^verbatim>\<open>bShutdown\<close> as false
    before \<^verbatim>\<open>doShutdown\<close> set it, and does the rest of its work now;
  \<^item> \<open>Finish i\<close>: the \<open>i\<close>-th started \<^verbatim>\<open>delayAndUpdate\<close> ends its sleep and writes its
    result.
  The loop of \<^verbatim>\<open>doShutdown\<close> compares the number of entries with the counter in one
  step; both only grow, and the number of entries never exceeds the counter, so the
  two reads of the program, one after the other, find them equal only when they were
  equal at the first read.
\<close>

datatype event = Hash request int64 | Stats request | InFlight request int64 | Finish nat

fun step :: "hash \<Rightarrow> event \<Rightarrow> state \<Rightarrow> response option \<times> state" where
  "step Sum512 (Hash r micros) s = (let (w, s') = doHash s r micros in (Some w, s'))"
| "step Sum512 (Stats r) s = (let (w, s') = getStats s r in (Some w, s'))"
| "step Sum512 (InFlight r micros) s =
     (let (w, s') = doHash (s\<lparr>bShutdown := False\<rparr>) r micros
      in (Some w, s'\<lparr>bShutdown := bShutdown s\<rparr>))"
| "step Sum512 (Finish i) s =
     (if i < length (goroutines s)
      then (None, delayAndUpdate Sum512 (fst (goroutines s ! i)) (snd (goroutines s ! i))
                    (s\<lparr>goroutines := take i (goroutines s) @ drop (Suc i) (goroutines s)\<rparr>))
      else (None, s))"

text \<open>A run: the steps in order, each with what it answered.\<close>

fun run :: "hash \<Rightarrow> event list \<Rightarrow> state \<Rightarrow> (event \<times> response option) list \<times> state" where
  "run Sum512 [] s = ([], s)"
| "run Sum512 (e # es) s =
     (let (w, s') = step Sum512 e s;
          (ws, s'') = run Sum512 es s'
      in ((e, w) # ws, s''))"

text \<open>
  The loop of \<^verbatim>\<open>doShutdown\<close>. Each element of the schedule is what the other
  goroutines do during one \<^verbatim>\<open>time.Sleep(100 * time.Millisecond)\<close>. \<open>None\<close>: the
  schedule is used up and the loop is still waiting.
\<close>

fun drain :: "hash \<Rightarrow> event list list \<Rightarrow> state \<Rightarrow> state option" where
  "drain Sum512 [] s =
     (if of_nat (length (resultMap s)) = requestID s then Some s else None)"
| "drain Sum512 (evs # sched) s =
     (if of_nat (length (resultMap s)) = requestID s then Some s
      else drain Sum512 sched (snd (run Sum512 evs s)))"

definition doShutdown ::
  "hash \<Rightarrow> event list list \<Rightarrow> state \<Rightarrow> request \<Rightarrow> (response \<times> state) option" where
  "doShutdown Sum512 sched s r =
     (if Method r \<noteq> MethodGet
      then Some (http_Error (StatusText StatusMethodNotAllowed) StatusMethodNotAllowed, s)
      else (case drain Sum512 sched (s\<lparr>bShutdown := True\<rparr>) of
              None \<Rightarrow> None
            | Some s' \<Rightarrow> Some (reply (Fprintf MsgFarewell), s')))"

section \<open>Runs of the service\<close>

text \<open>Requests as a client sends them: a submission of a password, and a query.\<close>

definition post :: "string \<Rightarrow> request" where
  "post pw = \<lparr>Method = MethodPost, Path = HashPath, Form = [(PasswordKey, pw)]\<rparr>"

definition query :: "string \<Rightarrow> request" where
  "query key = \<lparr>Method = MethodGet, Path = HashPath @ ''/'' @ key, Form = []\<rparr>"

definition get :: "string \<Rightarrow> request" where
  "get path = \<lparr>Method = MethodGet, Path = path, Form = []\<rparr>"

text \<open>
  The submission a step carries, with its password and its measured time, when the
  service accepts it: a \<^verbatim>\<open>POST\<close> with a password, which a call that starts while the
  flag is set (\<open>closed\<close>) does not get through.
\<close>

fun submission :: "bool \<Rightarrow> event \<Rightarrow> (string \<times> int64) option" where
  "submission closed (Hash r micros) =
     (if \<not> closed \<and> Method r = MethodPost \<and> FormValue r PasswordKey \<noteq> []
      then Some (FormValue r PasswordKey, micros) else None)"
| "submission closed (InFlight r micros) =
     (if Method r = MethodPost \<and> FormValue r PasswordKey \<noteq> []
      then Some (FormValue r PasswordKey, micros) else None)"
| "submission closed (Stats r) = None"
| "submission closed (Finish i) = None"

definition submissions :: "bool \<Rightarrow> event list \<Rightarrow> (string \<times> int64) list" where
  "submissions closed evs = List.map_filter (submission closed) evs"

text \<open>What the accepted submissions of a run were answered, in order.\<close>

definition issued :: "bool \<Rightarrow> (event \<times> response option) list \<Rightarrow> written list" where
  "issued closed ws =
     List.map_filter (\<lambda>(e, w). if submission closed e = None then None else map_option Body w) ws"

text \<open>
  The state after the passwords \<open>pws\<close> were accepted, in this order: the counter is
  their number, the keys of the map and of the started executors are the decimal
  texts of \<open>1\<close> to that number, each once, and the \<open>k\<close>-th password is with its executor
  or its hash is in the map.
\<close>

definition keys :: "state \<Rightarrow> string list" where
  "keys s = map fst (resultMap s) @ map fst (goroutines s)"

definition consistent :: "hash \<Rightarrow> string list \<Rightarrow> state \<Rightarrow> bool" where
  "consistent Sum512 pws s =
     (unat (requestID s) = length pws \<and> length pws < 2 ^ 63 \<and>
      distinct (keys s) \<and> set (keys s) = formatBits ` {1..length pws} \<and>
      list_all (\<lambda>k. (formatBits (Suc k), pws ! k) \<in> set (goroutines s) \<or>
                    map_of (resultMap s) (formatBits (Suc k)) = Some (transform Sum512 (pws ! k)))
               [0..<length pws])"


section \<open>Decimal text\<close>

lemma formatBits_small: "u < 10 \<Longrightarrow> formatBits u = [digits ! u]"
  by (simp add: formatBits.simps)

lemma formatBits_step: "10 \<le> u \<Longrightarrow> formatBits u = formatBits (u div 10) @ [digits ! (u mod 10)]"
  by (subst formatBits.simps) simp

lemma digit_nth_cases:
  assumes "d < 10"
  shows "isDigit (digits ! d) \<and> digitVal (digits ! d) = d"
proof -
  from assms have "d \<in> {0, 1, 2, 3, 4, 5, 6, 7, 8, 9}" by auto
  then show ?thesis
    by (auto simp: isDigit_def digitVal_def digits_def)
qed

lemma formatBits_digits: "list_all isDigit (formatBits u) \<and> formatBits u \<noteq> []"
proof (induction u rule: formatBits.induct)
  case (1 u)
  show ?case
  proof (cases "u < 10")
    case True
    then show ?thesis by (simp add: formatBits_small digit_nth_cases)
  next
    case False
    then have "formatBits u = formatBits (u div 10) @ [digits ! (u mod 10)]"
      by (simp add: formatBits_step)
    moreover have "isDigit (digits ! (u mod 10))" by (simp add: digit_nth_cases)
    ultimately show ?thesis using 1 False by simp
  qed
qed

lemma fold_formatBits: "fold (\<lambda>c n. n * 10 + digitVal c) (formatBits u) 0 = u"
proof (induction u rule: formatBits.induct)
  case (1 u)
  show ?case
  proof (cases "u < 10")
    case True
    then show ?thesis by (simp add: formatBits_small digit_nth_cases)
  next
    case False
    then have "formatBits u = formatBits (u div 10) @ [digits ! (u mod 10)]"
      by (simp add: formatBits_step)
    then show ?thesis using 1 False by (simp add: digit_nth_cases)
  qed
qed

lemma parseDigits_formatBits: "parseDigits (formatBits u) = Some u"
  by (simp add: parseDigits_def formatBits_digits fold_formatBits)

lemma formatBits_inj: "formatBits u = formatBits v \<Longrightarrow> u = v"
  by (metis parseDigits_formatBits option.inject)

lemma formatBits_hd_digit: "hd (formatBits u) \<noteq> CHR ''-'' \<and> hd (formatBits u) \<noteq> CHR ''+''"
proof -
  have "isDigit (hd (formatBits u))"
    using formatBits_digits [of u] by (cases "formatBits u") auto
  then show ?thesis by (auto simp: isDigit_def digits_def)
qed

lemma Atoi_formatBits: "u < 2 ^ 63 \<Longrightarrow> Atoi (formatBits u) = Some (int u)"
proof -
  assume u: "u < 2 ^ 63"
  obtain c cs where s: "formatBits u = c # cs"
    using formatBits_digits [of u] by (cases "formatBits u") auto
  have c: "c \<noteq> CHR ''-''" "c \<noteq> CHR ''+''"
    using formatBits_hd_digit [of u] s by auto
  have "parseDigits (c # cs) = Some u"
    using parseDigits_formatBits [of u] s by simp
  moreover have "int u < int (2 ^ 63)" using u by (simp only: of_nat_less_iff)
  then have "int u < 2 ^ 63" "- (2 ^ 63) \<le> int u" by simp_all
  ultimately show ?thesis using c s by (simp add: Atoi_def)
qed

section \<open>The command-line port\<close>

lemma Atoi_1234: "Atoi ''1234'' = Some 1234"
  by (simp add: Atoi_def parseDigits_def isDigit_def digits_def digitVal_def)

lemma Atoi_1024: "Atoi ''1024'' = Some 1024"
  by (simp add: Atoi_def parseDigits_def isDigit_def digits_def digitVal_def)

lemma Atoi_80a: "Atoi ''80a'' = None"
  by (simp add: Atoi_def parseDigits_def isDigit_def digits_def digitVal_def)

text \<open>
  C9. With a first command-line argument, \<^verbatim>\<open>main\<close> starts the server on port \<open>p\<close>
  exactly when the argument parses (by \<^verbatim>\<open>strconv.Atoi\<close>) as an integer \<open>p\<close> with
  \<open>1024 < p \<le> 65535\<close>; every other argument, not a number or out of range, ends the
  process with exit code \<open>-1\<close> before the server is started; with no argument the
  server is started on port 8080.
\<close>

theorem main_port:
  "(main (prog # arg # rest) = StartServer p \<longleftrightarrow> Atoi arg = Some p \<and> 1024 < p \<and> p \<le> 65535)
   \<and> ((\<nexists>q. Atoi arg = Some q \<and> 1024 < q \<and> q \<le> 65535) \<longrightarrow>
        (\<exists>msg. main (prog # arg # rest) = Exit msg (- 1)))
   \<and> main [prog] = StartServer 8080"
  by (auto simp: main_def minPort_def maxPort_def ListenPort_def split: option.splits)

theorem main_port_witness:
  "main [''main'', ''1234''] = StartServer 1234
   \<and> (\<exists>msg. main [''main'', ''1024''] = Exit msg (- 1))
   \<and> (\<exists>msg. main [''main'', ''80a''] = Exit msg (- 1))
   \<and> main [''main''] = StartServer 8080"
  using main_port [of "''main''" "''1234''" "[]" 1234]
        main_port [of "''main''" "''1024''" "[]"]
        main_port [of "''main''" "''80a''" "[]"]
  by (simp add: Atoi_1234 Atoi_1024 Atoi_80a)

section \<open>What the executor stores\<close>

lemma div3_step: "(length (src :: byte list) + 5) div 3 = Suc ((length src + 2) div 3)"
  by arith

lemma length_EncodeToString: "length (EncodeToString src) = 4 * ((length src + 2) div 3)"
proof (induction src rule: EncodeToString.induct)
  case (1 a b c src)
  have "length (EncodeToString (a # b # c # src)) = 4 + length (EncodeToString src)"
    by (simp add: Let_def)
  also have "\<dots> = 4 * Suc ((length src + 2) div 3)" using 1 by simp
  also have "\<dots> = 4 * ((length (a # b # c # src) + 2) div 3)"
    using div3_step [of src] by (simp add: add.commute)
  finally show ?case .
qed (simp_all add: Let_def)

lemma length_slice: "length (slice digest) = 64"
  by (simp add: slice_def)

lemma length_transform: "length (transform Sum512 pword) = 88"
  by (simp add: transform_def length_EncodeToString length_slice)

lemma length_encodeURL: "length encodeURL = 64"
  by (simp add: encodeURL_def)

lemma encodeURL_nth: "encodeURL ! (i mod 64) \<in> set encodeURL"
  using nth_mem [of "i mod 64" encodeURL] by (simp only: length_encodeURL)

lemma encodeURL_pad: "set [encodeURL ! (w mod 64), encodeURL ! (x mod 64)] \<subseteq> insert (CHR ''='') (set encodeURL)"
  using encodeURL_nth [of w] encodeURL_nth [of x] by (simp only: set_simps) blast

lemma set_EncodeToString: "set (EncodeToString src) \<subseteq> insert (CHR ''='') (set encodeURL)"
proof (induction src rule: EncodeToString.induct)
  case (1 a b c src)
  let ?val = "unat a * 65536 + unat b * 256 + unat c"
  have "EncodeToString (a # b # c # src) =
          ([encodeURL ! (?val div 262144 mod 64), encodeURL ! (?val div 4096 mod 64)] @
           [encodeURL ! (?val div 64 mod 64), encodeURL ! (?val mod 64)]) @ EncodeToString src"
    by (simp only: EncodeToString.simps Let_def append.simps)
  then show ?case
    using 1 encodeURL_pad [of "?val div 262144" "?val div 4096"] encodeURL_pad [of "?val div 64" ?val]
    by (simp only: set_append) blast
next
  case (2 a b)
  let ?val = "unat a * 65536 + unat b * 256"
  have "EncodeToString [a, b] =
          [encodeURL ! (?val div 262144 mod 64), encodeURL ! (?val div 4096 mod 64)] @
          [encodeURL ! (?val div 64 mod 64), CHR ''='']"
    by (simp only: EncodeToString.simps Let_def append.simps)
  then show ?case
    using encodeURL_pad [of "?val div 262144" "?val div 4096"] encodeURL_nth [of "?val div 64"]
    by (simp only: set_append set_simps) blast
next
  case (3 a)
  let ?val = "unat a * 65536"
  have "EncodeToString [a] =
          [encodeURL ! (?val div 262144 mod 64), encodeURL ! (?val div 4096 mod 64)] @
          [CHR ''='', CHR ''='']"
    by (simp only: EncodeToString.simps Let_def append.simps)
  then show ?case
    using encodeURL_pad [of "?val div 262144" "?val div 4096"]
    by (simp only: set_append set_simps) blast
next
  case 4
  show ?case by simp
qed


lemma percent_encodeURL: "CHR ''%'' \<notin> insert (CHR ''='') (set encodeURL)"
  by (simp add: encodeURL_def)

lemma percent_transform: "CHR ''%'' \<notin> set (transform Sum512 pword)"
  using set_EncodeToString [of "slice (Sum512 (bytes pword))"] percent_encodeURL
  unfolding transform_def by blast

lemma Fprintf_transform: "Fprintf (transform Sum512 pword) = Text (transform Sum512 pword)"
  by (simp add: Fprintf_def percent_transform)

lemma percent_formatBits: "CHR ''%'' \<notin> set (formatBits u)"
proof -
  have "\<forall>c\<in>set (formatBits u). isDigit c"
    using formatBits_digits [of u] by (simp add: list_all_iff)
  moreover have "\<not> isDigit (CHR ''%'')"
    by (simp add: isDigit_def digits_def)
  ultimately show ?thesis by blast
qed

lemma Fprintf_FormatInt: "Fprintf (FormatInt i) = Text (FormatInt i)"
  by (simp add: Fprintf_def FormatInt_def percent_formatBits)

lemma Fprintf_MsgFarewell: "Fprintf MsgFarewell = Text MsgFarewell"
  by (simp add: Fprintf_def MsgFarewell_def)

section \<open>The counter\<close>

lemma unat_succ: "unat (x :: int64) < 2 ^ 63 \<Longrightarrow> unat (x + 1) = Suc (unat x)"
  by (simp add: unat_word_ariths)

lemma sint_small: 
  assumes "unat (x :: int64) < 2 ^ 63" shows "sint x = int (unat x)"
proof -
  have u: "uint x < 2 ^ 63"
    using assms by (metis (mono_tags, lifting) of_nat_less_numeral_power_cancel_iff of_nat_unat)
  have z: "- (2 ^ 63) \<le> uint x"
    by (rule order_trans [of _ 0]) simp_all
  have "sint x = signed_take_bit (LENGTH(64) - Suc 0) (uint x)" by (rule sint_uint)
  also have "\<dots> = signed_take_bit 63 (uint x)" by simp
  also have "\<dots> = uint x"
    using z u by (rule signed_take_bit_int_eq_self)
  finally show ?thesis by simp
qed

lemma FormatInt_small: "unat (x :: int64) < 2 ^ 63 \<Longrightarrow> FormatInt x = formatBits (unat x)"
  by (simp add: FormatInt_def sint_small)

lemma of_nat_eq_unat:
  assumes "n < 2 ^ 63" shows "(of_nat n = (x :: int64)) = (n = unat x)"
proof
  have "(2::nat) ^ 63 < 2 ^ 64" by simp
  with assms have n: "n < 2 ^ LENGTH(64)" by simp
  assume "of_nat n = x"
  then show "n = unat x" using n of_nat_inverse [of n x] by simp
next
  assume "n = unat x"
  then show "of_nat n = x" by simp
qed

section \<open>One step\<close>

lemma doHash_post:
  assumes "\<not> bShutdown s" "Method r = MethodPost" "FormValue r PasswordKey \<noteq> []"
  shows "doHash s r micros =
           (reply (Text (FormatInt (requestID s + 1))),
            s\<lparr>requestID := requestID s + 1,
              goroutines := goroutines s @ [(FormatInt (requestID s + 1), FormValue r PasswordKey)],
              elapsedTime := elapsedTime s + micros\<rparr>)"
  using assms by (simp add: doHash_def Let_def MethodGet_def MethodPost_def Fprintf_FormatInt)

lemma doHash_other:
  assumes "bShutdown s \<or> Method r \<noteq> MethodPost \<or> FormValue r PasswordKey = []"
  shows "snd (doHash s r micros) = s"
  using assms by (auto simp: doHash_def Let_def)

lemma getStats_state: "snd (getStats s r) = s"
  by (simp add: getStats_def)

lemma step_submission:
  assumes "submission (bShutdown s) e = Some (pw, micros)"
  shows "step Sum512 e s =
           (Some (reply (Text (FormatInt (requestID s + 1)))),
            s\<lparr>requestID := requestID s + 1,
              goroutines := goroutines s @ [(FormatInt (requestID s + 1), pw)],
              elapsedTime := elapsedTime s + micros\<rparr>)"
proof (cases e)
  case (Hash r m)
  with assms have a: "\<not> bShutdown s" "Method r = MethodPost" "FormValue r PasswordKey \<noteq> []"
    and b: "pw = FormValue r PasswordKey" "micros = m"
    by (auto split: if_splits)
  show ?thesis using doHash_post [OF a, of m] Hash b by simp
next
  case (InFlight r m)
  with assms have a: "Method r = MethodPost" "FormValue r PasswordKey \<noteq> []"
    and b: "pw = FormValue r PasswordKey" "micros = m"
    by (auto split: if_splits)
  have "\<not> bShutdown (s\<lparr>bShutdown := False\<rparr>)" by simp
  from doHash_post [OF this a, of m] show ?thesis using InFlight b by simp
next
  case (Stats r)
  with assms show ?thesis by simp
next
  case (Finish i)
  with assms show ?thesis by simp
qed

lemma step_quiet:
  assumes "submission (bShutdown s) e = None" "\<And>i. e \<noteq> Finish i"
  shows "snd (step Sum512 e s) = s"
proof (cases e)
  case (Hash r m)
  with assms have "bShutdown s \<or> Method r \<noteq> MethodPost \<or> FormValue r PasswordKey = []"
    by (auto split: if_splits)
  from doHash_other [OF this, of m] show ?thesis using Hash by (simp add: case_prod_unfold)
next
  case (InFlight r m)
  with assms have "bShutdown (s\<lparr>bShutdown := False\<rparr>) \<or> Method r \<noteq> MethodPost \<or> FormValue r PasswordKey = []"
    by (auto split: if_splits)
  from doHash_other [OF this, of m] show ?thesis using InFlight by (simp add: case_prod_unfold)
next
  case (Stats r)
  then show ?thesis by (simp add: case_prod_unfold getStats_state)
next
  case (Finish i)
  with assms(2) [of i] show ?thesis by simp
qed


lemma update_absent: "k \<notin> fst ` set al \<Longrightarrow> AList.update k v al = al @ [(k, v)]"
  by (induction al) auto

lemma consistentD:
  assumes "consistent Sum512 pws s"
  shows "unat (requestID s) = length pws" "length pws < 2 ^ 63"
    "distinct (keys s)" "set (keys s) = formatBits ` {1..length pws}"
    "\<And>k. k < length pws \<Longrightarrow>
       (formatBits (Suc k), pws ! k) \<in> set (goroutines s) \<or>
       map_of (resultMap s) (formatBits (Suc k)) = Some (transform Sum512 (pws ! k))"
  using assms by (simp_all add: consistent_def list_all_iff)

lemma consistentI:
  assumes "unat (requestID s) = length pws" "length pws < 2 ^ 63"
    "distinct (keys s)" "set (keys s) = formatBits ` {1..length pws}"
    "\<And>k. k < length pws \<Longrightarrow>
       (formatBits (Suc k), pws ! k) \<in> set (goroutines s) \<or>
       map_of (resultMap s) (formatBits (Suc k)) = Some (transform Sum512 (pws ! k))"
  shows "consistent Sum512 pws s"
  using assms by (simp add: consistent_def list_all_iff)

lemma consistent_init: "consistent Sum512 [] init"
  by (simp add: consistent_def init_def keys_def)

lemma formatBits_fresh: "formatBits (Suc n) \<notin> formatBits ` {1..n}"
proof
  assume "formatBits (Suc n) \<in> formatBits ` {1..n}"
  then obtain k where "k \<in> {1..n}" "formatBits (Suc n) = formatBits k" by blast
  then show False using formatBits_inj [of "Suc n" k] by simp
qed

lemma consistent_issue:
  assumes c: "consistent Sum512 pws s" and n: "Suc (length pws) < 2 ^ 63"
  shows "consistent Sum512 (pws @ [pw])
           (s\<lparr>requestID := requestID s + 1,
              goroutines := goroutines s @ [(FormatInt (requestID s + 1), pw)],
              elapsedTime := t\<rparr>)"
    (is "consistent _ _ ?s'")
proof -
  note d = consistentD [OF c]
  have u: "unat (requestID s + 1) = Suc (length pws)"
    using d(1,2) unat_succ [of "requestID s"] by simp
  then have f: "FormatInt (requestID s + 1) = formatBits (Suc (length pws))"
    using n FormatInt_small [of "requestID s + 1"] by simp
  have k: "keys ?s' = keys s @ [formatBits (Suc (length pws))]"
    by (simp add: keys_def f)
  show ?thesis
  proof (rule consistentI)
    show "unat (requestID ?s') = length (pws @ [pw])" using u by simp
    show "length (pws @ [pw]) < 2 ^ 63" using n by simp
    show "distinct (keys ?s')"
      using d(3,4) formatBits_fresh [of "length pws"] by (simp add: k)
    show "set (keys ?s') = formatBits ` {1..length (pws @ [pw])}"
      using d(4) by (simp add: k atLeastAtMostSuc_conv)
  next
    fix j assume j: "j < length (pws @ [pw])"
    show "(formatBits (Suc j), (pws @ [pw]) ! j) \<in> set (goroutines ?s') \<or>
          map_of (resultMap ?s') (formatBits (Suc j)) = Some (transform Sum512 ((pws @ [pw]) ! j))"
    proof (cases "j < length pws")
      case True
      then show ?thesis using d(5) [of j] by (auto simp: nth_append)
    next
      case False
      with j have "j = length pws" by simp
      then show ?thesis by (simp add: f)
    qed
  qed
qed


lemma step_Finish:
  assumes "goroutines s = A @ (key, pw) # B" "i = length A"
  shows "step Sum512 (Finish i) s =
           (None, s\<lparr>goroutines := A @ B,
                     resultMap := AList.update key (transform Sum512 pw) (resultMap s)\<rparr>)"
  using assms by (simp add: delayAndUpdate_def nth_append)

lemma goroutines_split:
  assumes "i < length (goroutines s)"
  obtains A key pw B where "goroutines s = A @ (key, pw) # B" "i = length A"
proof -
  have "goroutines s = take i (goroutines s) @ (fst (goroutines s ! i), snd (goroutines s ! i)) #
          drop (Suc i) (goroutines s)"
    using id_take_nth_drop [OF assms] by simp
  moreover have "i = length (take i (goroutines s))" using assms by simp
  ultimately show ?thesis using that by blast
qed

lemma consistent_finish:
  assumes c: "consistent Sum512 pws s" and g: "goroutines s = A @ (key, pw) # B"
  shows "consistent Sum512 pws
           (s\<lparr>goroutines := A @ B,
              resultMap := AList.update key (transform Sum512 pw) (resultMap s)\<rparr>)"
    (is "consistent _ _ ?s'")
proof -
  note d = consistentD [OF c]
  have ks: "keys s = map fst (resultMap s) @ map fst A @ key # map fst B"
    by (simp add: keys_def g)
  with d(3) have fresh: "key \<notin> fst ` set (resultMap s)" by auto
  then have m: "resultMap ?s' = resultMap s @ [(key, transform Sum512 pw)]"
    by (simp add: update_absent)
  have ks': "keys ?s' = map fst (resultMap s) @ key # map fst A @ map fst B"
    by (simp add: keys_def m)
  show ?thesis
  proof (rule consistentI)
    show "unat (requestID ?s') = length pws" using d(1) by simp
    show "length pws < 2 ^ 63" by (rule d(2))
    show "distinct (keys ?s')" using d(3) unfolding ks ks' by auto
    show "set (keys ?s') = formatBits ` {1..length pws}" using d(4) unfolding ks ks' by auto
  next
    fix k assume k: "k < length pws"
    from d(5) [OF k] show "(formatBits (Suc k), pws ! k) \<in> set (goroutines ?s') \<or>
          map_of (resultMap ?s') (formatBits (Suc k)) = Some (transform Sum512 (pws ! k))"
    proof
      assume "(formatBits (Suc k), pws ! k) \<in> set (goroutines s)"
      then have "(formatBits (Suc k), pws ! k) = (key, pw) \<or>
                 (formatBits (Suc k), pws ! k) \<in> set (A @ B)"
        by (auto simp: g)
      then show ?thesis
      proof
        assume "(formatBits (Suc k), pws ! k) = (key, pw)"
        then show ?thesis by (simp add: update_conv')
      next
        assume "(formatBits (Suc k), pws ! k) \<in> set (A @ B)"
        then show ?thesis by simp
      qed
    next
      assume e: "map_of (resultMap s) (formatBits (Suc k)) = Some (transform Sum512 (pws ! k))"
      have "formatBits (Suc k) \<in> fst ` set (resultMap s)"
        using map_of_SomeD [OF e] by force
      with fresh have "formatBits (Suc k) \<noteq> key" by auto
      with e show ?thesis by (simp add: update_conv')
    qed
  qed
qed


lemma step_cases [case_names Issue Finish Quiet]:
  obtains
    (Issue) pw micros where "submission (bShutdown s) e = Some (pw, micros)"
      "step Sum512 e s =
         (Some (reply (Text (FormatInt (requestID s + 1)))),
          s\<lparr>requestID := requestID s + 1,
            goroutines := goroutines s @ [(FormatInt (requestID s + 1), pw)],
            elapsedTime := elapsedTime s + micros\<rparr>)"
  | (Finish) i A key pw B where "e = Finish i" "goroutines s = A @ (key, pw) # B"
      "step Sum512 e s =
         (None, s\<lparr>goroutines := A @ B,
                   resultMap := AList.update key (transform Sum512 pw) (resultMap s)\<rparr>)"
  | (Quiet) "submission (bShutdown s) e = None" "snd (step Sum512 e s) = s"
proof (cases "submission (bShutdown s) e")
  case (Some a)
  obtain pw micros where "a = (pw, micros)" by (cases a)
  with Some step_submission [of s e pw micros Sum512] Issue show ?thesis by simp
next
  case None
  show ?thesis
  proof (cases "\<exists>i. e = Finish i \<and> i < length (goroutines s)")
    case True
    then obtain i where i: "e = Finish i" "i < length (goroutines s)" by blast
    from goroutines_split [OF i(2)] obtain A key pw B
      where g: "goroutines s = A @ (key, pw) # B" "i = length A" by blast
    from Finish [OF i(1) g(1)] step_Finish [OF g] i(1) show ?thesis by simp
  next
    case False
    have "snd (step Sum512 e s) = s"
    proof (cases "\<exists>i. e = Finish i")
      case True
      with False show ?thesis by auto
    next
      case False
      then show ?thesis using step_quiet [OF None] by blast
    qed
    with None Quiet show ?thesis by simp
  qed
qed

lemma step_flag: "bShutdown (snd (step Sum512 e s)) = bShutdown s"
  by (cases rule: step_cases [of s e Sum512]) simp_all

lemma step_consistent:
  assumes "consistent Sum512 pws s" "Suc (length pws) < 2 ^ 63"
  shows "consistent Sum512 (pws @ map fst (submissions (bShutdown s) [e])) (snd (step Sum512 e s))"
proof (cases rule: step_cases [of s e Sum512])
  case (Issue pw micros)
  then show ?thesis using consistent_issue [OF assms] by (simp add: submissions_def)
next
  case (Finish i A key pw B)
  then show ?thesis using consistent_finish [OF assms(1)] by (simp add: submissions_def)
next
  case Quiet
  then show ?thesis using assms(1) by (simp add: submissions_def)
qed

lemma submissions_Cons:
  "submissions closed (e # evs) = submissions closed [e] @ submissions closed evs"
  by (simp add: submissions_def split: option.splits)

lemma length_submissions: "length (submissions closed evs) \<le> length evs"
  by (induction evs) (simp_all add: submissions_def split: option.splits)

lemma run_Cons:
  "run Sum512 (e # evs) s =
     ((e, fst (step Sum512 e s)) # fst (run Sum512 evs (snd (step Sum512 e s))),
      snd (run Sum512 evs (snd (step Sum512 e s))))"
  by (simp add: case_prod_unfold Let_def)

declare run.simps(2) [simp del]

lemma run_flag: "bShutdown (snd (run Sum512 evs s)) = bShutdown s"
  by (induction evs arbitrary: s) (simp_all only: run.simps(1) run_Cons snd_conv step_flag)

lemma run_consistent:
  assumes "consistent Sum512 pws s" "length pws + length evs < 2 ^ 63"
  shows "consistent Sum512 (pws @ map fst (submissions (bShutdown s) evs)) (snd (run Sum512 evs s))"
  using assms
proof (induction evs arbitrary: s pws)
  case Nil
  then show ?case by (simp add: submissions_def)
next
  case (Cons e evs)
  let ?s = "snd (step Sum512 e s)" and ?p = "pws @ map fst (submissions (bShutdown s) [e])"
  have a: "consistent Sum512 ?p ?s"
    using Cons.prems by (intro step_consistent) simp_all
  have "length ?p + length evs < 2 ^ 63"
    using Cons.prems(2) length_submissions [of "bShutdown s" "[e]"] by simp
  from Cons.IH [OF a this] show ?case
    by (simp only: run_Cons snd_conv step_flag submissions_Cons [of _ e evs] map_append append_assoc)
qed

lemma issued_Cons:
  "issued closed ((e, w) # ws) =
     (if submission closed e = None then issued closed ws
      else case w of None \<Rightarrow> issued closed ws | Some a \<Rightarrow> Body a # issued closed ws)"
  by (simp add: issued_def split: option.splits)

lemma run_issued:
  assumes "consistent Sum512 pws s" "length pws + length evs < 2 ^ 63"
  shows "issued (bShutdown s) (fst (run Sum512 evs s)) =
           map (\<lambda>k. Text (formatBits k))
             [Suc (length pws)..<Suc (length pws + length (submissions (bShutdown s) evs))]"
  using assms
proof (induction evs arbitrary: s pws)
  case Nil
  then show ?case by (simp add: submissions_def issued_def)
next
  case (Cons e evs)
  let ?s = "snd (step Sum512 e s)" and ?p = "pws @ map fst (submissions (bShutdown s) [e])"
  have a: "consistent Sum512 ?p ?s"
    using Cons.prems by (intro step_consistent) simp_all
  have b: "length ?p + length evs < 2 ^ 63"
    using Cons.prems(2) length_submissions [of "bShutdown s" "[e]"] by simp
  note ih = Cons.IH [OF a b, simplified step_flag]
  note d = consistentD [OF Cons.prems(1)]
  show ?case
  proof (cases rule: step_cases [of s e Sum512])
    case (Issue pw micros)
    have "unat (requestID s + 1) = Suc (length pws)"
      using d(1,2) unat_succ [of "requestID s"] by simp
    moreover have "Suc (length pws) < 2 ^ 63" using Cons.prems(2) by simp
    ultimately have f: "FormatInt (requestID s + 1) = formatBits (Suc (length pws))"
      using FormatInt_small [of "requestID s + 1"] by simp
    have l: "length (submissions (bShutdown s) (e # evs)) =
               Suc (length (submissions (bShutdown s) evs))"
      using Issue(1) by (simp add: submissions_def)
    have p: "length ?p = Suc (length pws)" using Issue(1) by (simp add: submissions_def)
    let ?N = "length (submissions (bShutdown s) evs)" and ?n = "length pws"
    have "issued (bShutdown s) (fst (run Sum512 (e # evs) s)) =
            Text (formatBits (Suc ?n)) # issued (bShutdown s) (fst (run Sum512 evs ?s))"
      using Issue by (simp add: run_Cons issued_Cons reply_def f)
    also have "issued (bShutdown s) (fst (run Sum512 evs ?s)) =
            map (\<lambda>k. Text (formatBits k)) [Suc (Suc ?n)..<Suc (Suc ?n + ?N)]"
      using ih by (simp only: p)
    also have "Text (formatBits (Suc ?n)) #
            map (\<lambda>k. Text (formatBits k)) [Suc (Suc ?n)..<Suc (Suc ?n + ?N)] =
            map (\<lambda>k. Text (formatBits k)) (Suc ?n # [Suc (Suc ?n)..<Suc (Suc ?n + ?N)])"
      by simp
    also have "Suc ?n # [Suc (Suc ?n)..<Suc (Suc ?n + ?N)] = [Suc ?n..<Suc (Suc ?n + ?N)]"
      by (rule upt_conv_Cons [symmetric]) simp
    also have "Suc (Suc ?n + ?N) = Suc (?n + length (submissions (bShutdown s) (e # evs)))"
      by (simp add: l)
    finally show ?thesis .
  next
    case (Finish i A key pw B)
    then have n: "submission (bShutdown s) e = None" by simp
    then have "submissions (bShutdown s) (e # evs) = submissions (bShutdown s) evs"
      "?p = pws" by (simp_all add: submissions_def)
    with ih n show ?thesis by (simp add: run_Cons issued_Cons)
  next
    case Quiet
    then have "submissions (bShutdown s) (e # evs) = submissions (bShutdown s) evs"
      "?p = pws" by (simp_all add: submissions_def)
    with ih Quiet(1) show ?thesis by (simp add: run_Cons issued_Cons)
  qed
qed

text \<open>
  C3. From the initial state, the answers to the accepted submissions of a run are, in
  order, the decimal texts of 1, 2, ... up to their number, so they are pairwise
  distinct and without a gap (\<open>parseDigits_formatBits\<close>: \<open>formatBits k\<close> is read back
  as \<open>k\<close>). The run may hold any other requests and executor completions; its length
  stays below \<open>2 ^ 63\<close>, where the 64-bit counter would wrap.
\<close>

theorem identifiers_contiguous:
  assumes "run Sum512 evs init = (ws, s)" "length evs < 2 ^ 63"
  shows "issued False ws =
           map (\<lambda>k. Text (formatBits k)) [1..<Suc (length (submissions False evs))]
         \<and> length (issued False ws) = length (submissions False evs)
         \<and> distinct (issued False ws)"
proof -
  have "issued (bShutdown init) (fst (run Sum512 evs init)) =
          map (\<lambda>k. Text (formatBits k))
            [Suc (length ([] :: string list))..<
             Suc (length ([] :: string list) + length (submissions (bShutdown init) evs))]"
    using assms(2) by (intro run_issued consistent_init) simp
  then have e: "issued False ws =
      map (\<lambda>k. Text (formatBits k)) [1..<Suc (length (submissions False evs))]"
    using assms(1) by (simp add: init_def del: upt_Suc)
  have "inj (\<lambda>k. Text (formatBits k))"
    by (rule injI) (simp add: formatBits_inj)
  then have "distinct (map (\<lambda>k. Text (formatBits k)) [1..<Suc (length (submissions False evs))])"
    by (simp add: distinct_map inj_on_def del: upt_Suc)
  with e show ?thesis by (simp del: upt_Suc)
qed


theorem identifiers_contiguous_witness:
  "issued False (fst (run (\<lambda>_. 0)
      [Hash (post ''abc123'') 7, Hash (query ''1'') 0, Hash (post []) 2, Finish 0,
       Hash (post ''hunter2'') 5] init)) = [Text ''1'', Text ''2'']"
  using identifiers_contiguous [of "\<lambda>_. 0"
      "[Hash (post ''abc123'') 7, Hash (query ''1'') 0, Hash (post []) 2, Finish 0,
        Hash (post ''hunter2'') 5]"
      "fst (run (\<lambda>_. 0)
        [Hash (post ''abc123'') 7, Hash (query ''1'') 0, Hash (post []) 2, Finish 0,
         Hash (post ''hunter2'') 5] init)"
      "snd (run (\<lambda>_. 0)
        [Hash (post ''abc123'') 7, Hash (query ''1'') 0, Hash (post []) 2, Finish 0,
         Hash (post ''hunter2'') 5] init)"]
  by (simp add: submissions_def post_def query_def FormValue_def MethodPost_def MethodGet_def
        PasswordKey_def formatBits_small digits_def)

section \<open>The handlers, one call at a time\<close>

text \<open>
  C2. Once \<^verbatim>\<open>bShutdown\<close> is set, every call of \<^verbatim>\<open>doHash\<close>, a submission or a query
  or any other method, is answered 503 with the shutdown message and leaves the whole
  state as it was: the counter, the accumulated time, the map and the started
  executors; the answer is the same whatever the map holds. \<^verbatim>\<open>getStats\<close> never
  changes the state and answers a \<^verbatim>\<open>GET\<close> the same way.
\<close>

theorem shutdown_rejects:
  "bShutdown s \<Longrightarrow>
     doHash s r micros = (http_Error ErrShutdown StatusServiceUnavailable, s)
     \<and> step Sum512 (Hash r micros) s = (Some (http_Error ErrShutdown StatusServiceUnavailable), s)
     \<and> snd (getStats s r) = s
     \<and> (Method r = MethodGet \<longrightarrow>
          getStats s r = (http_Error ErrShutdown StatusServiceUnavailable, s))"
  by (simp add: doHash_def getStats_def ErrShutdown_def)

theorem shutdown_rejects_witness:
  "bShutdown (init\<lparr>bShutdown := True\<rparr>)
   \<and> doHash (init\<lparr>bShutdown := True\<rparr>) (post ''abc123'') 7 =
       (\<lparr>Status = 503, Body = Text (''Service is shutting down, request rejected'' @ [CHR 0x0A])\<rparr>,
        init\<lparr>bShutdown := True\<rparr>)
   \<and> doHash (init\<lparr>bShutdown := True\<rparr>) (query ''1'') 7 =
       (\<lparr>Status = 503, Body = Text (''Service is shutting down, request rejected'' @ [CHR 0x0A])\<rparr>,
        init\<lparr>bShutdown := True\<rparr>)
   \<and> getStats (init\<lparr>bShutdown := True\<rparr>) (get ''/stats'') =
       (\<lparr>Status = 503, Body = Text (''Service is shutting down, request rejected'' @ [CHR 0x0A])\<rparr>,
        init\<lparr>bShutdown := True\<rparr>)"
  using shutdown_rejects [of "init\<lparr>bShutdown := True\<rparr>" "post ''abc123''" 7]
        shutdown_rejects [of "init\<lparr>bShutdown := True\<rparr>" "query ''1''" 7]
        shutdown_rejects [of "init\<lparr>bShutdown := True\<rparr>" "get ''/stats''"]
  by (simp add: http_Error_def ErrShutdown_def StatusServiceUnavailable_def get_def)

lemma shutdown_idle:
  "doShutdown Sum512 [] init (get ''/shutdown'') =
     Some (reply (Text MsgFarewell), init\<lparr>bShutdown := True\<rparr>)"
  by (simp add: doShutdown_def get_def init_def Fprintf_MsgFarewell)

text \<open>
  C8, as the claim is written, fails: it promises the answer 400 for every submission
  without a password. After a shutdown request (here on the idle service, which is
  answered at once) such a submission is answered 503 like every other call.
\<close>

theorem empty_password_counterexample:
  "doShutdown (\<lambda>_. 0) [] init (get ''/shutdown'') =
     Some (reply (Text MsgFarewell), init\<lparr>bShutdown := True\<rparr>)
   \<and> FormValue (post []) PasswordKey = []
   \<and> fst (doHash (init\<lparr>bShutdown := True\<rparr>) (post []) 0) =
       http_Error ErrShutdown StatusServiceUnavailable
   \<and> fst (doHash (init\<lparr>bShutdown := True\<rparr>) (post []) 0) \<noteq>
       http_Error ErrPassword StatusBadRequest"
  by (simp add: shutdown_idle)
     (simp add: doHash_def post_def FormValue_def http_Error_def StatusServiceUnavailable_def
        StatusBadRequest_def)

text \<open>
  C8, amended. A \<^verbatim>\<open>POST\<close> whose form has no \<^verbatim>\<open>password\<close> field, or an empty one,
  changes nothing: no identifier is taken, no executor is started, no time is added.
  Its answer is 400 with the password message while the service is not shutting down,
  and the 503 of the shutdown check once it is.
\<close>

theorem empty_password_rejected:
  "Method r = MethodPost \<Longrightarrow>
   map_of (Form r) PasswordKey = None \<or> map_of (Form r) PasswordKey = Some [] \<Longrightarrow>
     doHash s r micros =
       (if bShutdown s then http_Error ErrShutdown StatusServiceUnavailable
        else http_Error ErrPassword StatusBadRequest, s)"
  by (auto simp: doHash_def FormValue_def MethodGet_def MethodPost_def)

theorem empty_password_rejected_witness:
  "doHash init (post []) 7 =
     (\<lparr>Status = 400, Body = Text (''Error: Missing or invalid password'' @ [CHR 0x0A])\<rparr>, init)
   \<and> doHash init \<lparr>Method = ''POST'', Path = ''/hash'', Form = []\<rparr> 7 =
     (\<lparr>Status = 400, Body = Text (''Error: Missing or invalid password'' @ [CHR 0x0A])\<rparr>, init)"
proof -
  have m: "Method (post []) = MethodPost"
    "Method \<lparr>Method = ''POST'', Path = ''/hash'', Form = []\<rparr> = MethodPost"
    by (simp_all add: post_def MethodPost_def)
  have f: "map_of (Form (post [])) PasswordKey = None \<or> map_of (Form (post [])) PasswordKey = Some []"
    "map_of (Form \<lparr>Method = ''POST'', Path = ''/hash'', Form = []\<rparr>) PasswordKey = None \<or>
     map_of (Form \<lparr>Method = ''POST'', Path = ''/hash'', Form = []\<rparr>) PasswordKey = Some []"
    by (simp_all add: post_def)
  from empty_password_rejected [OF m(1) f(1), of init 7]
       empty_password_rejected [OF m(2) f(2), of init 7]
  show ?thesis
    by (simp add: init_def http_Error_def ErrPassword_def StatusBadRequest_def)
qed

lemma TrimPrefix_query: "TrimPrefix (Path (query key)) (HashPath @ ''/'') = key"
  by (simp add: TrimPrefix_def query_def)

lemma pending_1:
  "snd (doHash init (post ''abc123'') 7) =
     \<lparr>requestID = 1, resultMap = [], elapsedTime = 7, bShutdown = False,
      goroutines = [(''1'', ''abc123'')]\<rparr>"
  by (simp add: doHash_def init_def post_def MethodGet_def MethodPost_def FormValue_def
        PasswordKey_def FormatInt_def formatBits_small digits_def Let_def)

text \<open>
  C6, as the claim is written, fails: it promises the answer 400 for every query of a
  key without an entry. Take the state in which \<^verbatim>\<open>doShutdown\<close> waits for the one
  submission made so far: the query for its identifier finds no entry and is answered
  503.
\<close>

theorem unknown_id_counterexample:
  "map_of (resultMap ((snd (doHash init (post ''abc123'') 7))\<lparr>bShutdown := True\<rparr>)) ''1'' = None
   \<and> drain (\<lambda>_. 0) [] ((snd (doHash init (post ''abc123'') 7))\<lparr>bShutdown := True\<rparr>) = None
   \<and> fst (doHash ((snd (doHash init (post ''abc123'') 7))\<lparr>bShutdown := True\<rparr>) (query ''1'') 0) =
       http_Error ErrShutdown StatusServiceUnavailable
   \<and> fst (doHash ((snd (doHash init (post ''abc123'') 7))\<lparr>bShutdown := True\<rparr>) (query ''1'') 0) \<noteq>
       http_Error ErrInvalidId StatusBadRequest"
  by (simp add: pending_1)
     (simp add: doHash_def http_Error_def StatusServiceUnavailable_def StatusBadRequest_def)

text \<open>
  C6, amended. A query for a key that the map does not hold changes nothing and is
  answered with a rejection that depends on nothing but the shutdown flag: 400 with the
  one message for an invalid task id while the service is not shutting down, 503 once
  it is. So the answer is the same for an identifier whose executor has not finished
  and for one that was never given out.
\<close>

theorem unknown_id_rejected:
  "Method r = MethodGet \<Longrightarrow>
   map_of (resultMap s) (TrimPrefix (Path r) (HashPath @ ''/'')) = None \<Longrightarrow>
     doHash s r micros =
       (if bShutdown s then http_Error ErrShutdown StatusServiceUnavailable
        else http_Error ErrInvalidId StatusBadRequest, s)"
  by (simp add: doHash_def)

theorem unknown_id_rejected_witness:
  "fst (doHash (snd (doHash init (post ''abc123'') 7)) (query ''1'') 0) =
     \<lparr>Status = 400, Body = Text (''Error: Invalid task Id'' @ [CHR 0x0A])\<rparr>
   \<and> fst (doHash (snd (doHash init (post ''abc123'') 7)) (query ''2'') 0) =
     \<lparr>Status = 400, Body = Text (''Error: Invalid task Id'' @ [CHR 0x0A])\<rparr>"
proof -
  let ?s = "snd (doHash init (post ''abc123'') 7)"
  have m: "Method (query ''1'') = MethodGet" "Method (query ''2'') = MethodGet"
    by (simp_all add: query_def)
  have a: "map_of (resultMap ?s) (TrimPrefix (Path (query ''1'')) (HashPath @ ''/'')) = None"
    "map_of (resultMap ?s) (TrimPrefix (Path (query ''2'')) (HashPath @ ''/'')) = None"
    by (simp_all add: pending_1 TrimPrefix_query)
  from unknown_id_rejected [OF m(1) a(1), of 0] unknown_id_rejected [OF m(2) a(2), of 0]
  show ?thesis
    by (simp add: pending_1 http_Error_def ErrInvalidId_def StatusBadRequest_def)
qed

section \<open>Entries of the map\<close>

lemma step_entry:
  assumes "consistent Sum512 pws s" "map_of (resultMap s) key = Some v"
  shows "map_of (resultMap (snd (step Sum512 e s))) key = Some v"
proof (cases rule: step_cases [of s e Sum512])
  case (Issue pw micros)
  then show ?thesis using assms(2) by simp
next
  case (Finish i A k pw B)
  note d = consistentD [OF assms(1)]
  have "keys s = map fst (resultMap s) @ map fst A @ k # map fst B"
    by (simp add: keys_def Finish(2))
  with d(3) have "k \<notin> fst ` set (resultMap s)" by auto
  moreover have "key \<in> fst ` set (resultMap s)"
    using map_of_SomeD [OF assms(2)] by force
  ultimately have "k \<noteq> key" by auto
  then show ?thesis using Finish(3) assms(2) by (simp add: update_conv')
next
  case Quiet
  then show ?thesis using assms(2) by simp
qed

lemma run_entry:
  assumes "consistent Sum512 pws s" "length pws + length evs < 2 ^ 63"
    "map_of (resultMap s) key = Some v"
  shows "map_of (resultMap (snd (run Sum512 evs s))) key = Some v"
  using assms
proof (induction evs arbitrary: s pws)
  case Nil
  then show ?case by simp
next
  case (Cons e evs)
  let ?s = "snd (step Sum512 e s)" and ?p = "pws @ map fst (submissions (bShutdown s) [e])"
  have a: "consistent Sum512 ?p ?s"
    using Cons.prems by (intro step_consistent) simp_all
  have b: "length ?p + length evs < 2 ^ 63"
    using Cons.prems(2) length_submissions [of "bShutdown s" "[e]"] by simp
  have c: "map_of (resultMap ?s) key = Some v"
    using Cons.prems(1,3) by (rule step_entry)
  from Cons.IH [OF a b c] show ?case by (simp add: run_Cons)
qed

lemma consistent_pending:
  assumes "consistent Sum512 pws s" "(key, pw) \<in> set (goroutines s)"
  shows "map_of (resultMap s) key = None"
proof -
  have "key \<in> set (map fst (goroutines s))" using assms(2) by force
  with consistentD(3) [OF assms(1)] have "key \<notin> fst ` set (resultMap s)"
    by (auto simp: keys_def)
  then show ?thesis by (simp add: map_of_eq_None_iff)
qed

lemma consistent_distinct:
  assumes "consistent Sum512 pws s"
  shows "distinct (map fst (goroutines s))" "distinct (map fst (resultMap s))"
  using consistentD(3) [OF assms] by (simp_all add: keys_def)

lemma doHash_resultMap: "resultMap (snd (doHash s r micros)) = resultMap s"
  by (simp add: doHash_def Let_def)

lemma getStats_resultMap: "resultMap (snd (getStats s r)) = resultMap s"
  by (simp add: getStats_def)


section \<open>Shutdown\<close>

lemma consistent_flag: "consistent Sum512 pws (s\<lparr>bShutdown := b\<rparr>) = consistent Sum512 pws s"
  by (simp add: consistent_def keys_def)

lemma length_consistent:
  assumes "consistent Sum512 pws s"
  shows "length (resultMap s) + length (goroutines s) = length pws"
proof -
  note d = consistentD [OF assms]
  have "inj_on formatBits {1..length pws}"
    by (rule inj_onI) (rule formatBits_inj)
  then have "card (formatBits ` {1..length pws}) = length pws"
    by (simp add: card_image)
  moreover have "card (set (keys s)) = length (keys s)"
    using d(3) by (rule distinct_card)
  ultimately have "length (keys s) = length pws" using d(4) by simp
  then show ?thesis by (simp add: keys_def)
qed

lemma drain_exit:
  assumes "consistent Sum512 pws s"
  shows "(of_nat (length (resultMap s)) = requestID s) = (goroutines s = [])"
proof -
  note d = consistentD [OF assms] and l = length_consistent [OF assms]
  have "length (resultMap s) < 2 ^ 63" using l d(2) by simp
  then have "(of_nat (length (resultMap s)) = requestID s) =
             (length (resultMap s) = unat (requestID s))"
    by (rule of_nat_eq_unat)
  then show ?thesis using l d(1) by auto
qed

lemma consistent_complete:
  assumes "consistent Sum512 pws s" "goroutines s = []" "k < length pws"
  shows "map_of (resultMap s) (formatBits (Suc k)) = Some (transform Sum512 (pws ! k))"
  using consistentD(5) [OF assms(1,3)] assms(2) by simp

lemma drain_Some:
  assumes "consistent Sum512 pws s" "length pws + length (concat sched) < 2 ^ 63"
    "drain Sum512 sched s = Some s'"
  shows "\<exists>pws'. consistent Sum512 (pws @ pws') s' \<and> goroutines s' = [] \<and>
           bShutdown s' = bShutdown s \<and>
           (\<forall>key v. map_of (resultMap s) key = Some v \<longrightarrow> map_of (resultMap s') key = Some v)"
  using assms
proof (induction sched arbitrary: s pws)
  case Nil
  then have "s' = s" "of_nat (length (resultMap s)) = requestID s"
    by (auto split: if_splits)
  with Nil(1) drain_exit [OF Nil(1)] have "consistent Sum512 (pws @ []) s' \<and> goroutines s' = []"
    by simp
  then show ?case using \<open>s' = s\<close> by blast
next
  case (Cons evs sched)
  show ?case
  proof (cases "of_nat (length (resultMap s)) = requestID s")
    case True
    with Cons.prems(3) have "s' = s" by simp
    with True Cons.prems(1) drain_exit [OF Cons.prems(1)]
    have "consistent Sum512 (pws @ []) s' \<and> goroutines s' = []" by simp
    then show ?thesis using \<open>s' = s\<close> by blast
  next
    case False
    let ?s = "snd (run Sum512 evs s)" and ?p = "pws @ map fst (submissions (bShutdown s) evs)"
    have le: "length pws + length evs < 2 ^ 63" using Cons.prems(2) by simp
    have a: "consistent Sum512 ?p ?s"
      using Cons.prems(1) le by (rule run_consistent)
    have b: "length ?p + length (concat sched) < 2 ^ 63"
      using Cons.prems(2) length_submissions [of "bShutdown s" evs] by simp
    have c: "drain Sum512 sched ?s = Some s'"
      using Cons.prems(3) False by simp
    from Cons.IH [OF a b c] obtain pws' where
      p: "consistent Sum512 (?p @ pws') s'" "goroutines s' = []" "bShutdown s' = bShutdown ?s"
        "\<forall>key v. map_of (resultMap ?s) key = Some v \<longrightarrow> map_of (resultMap s') key = Some v"
      by blast
    have "\<forall>key v. map_of (resultMap s) key = Some v \<longrightarrow> map_of (resultMap s') key = Some v"
      using p(4) run_entry [OF Cons.prems(1) le] by blast
    moreover have "consistent Sum512 (pws @ (map fst (submissions (bShutdown s) evs) @ pws')) s'"
      using p(1) by simp
    ultimately show ?thesis using p(2,3) run_flag [of Sum512 evs s] by blast
  qed
qed

lemma step_Finish_0: "goroutines (snd (step Sum512 (Finish 0) s)) = drop 1 (goroutines s)"
  by (cases "goroutines s") (simp_all add: delayAndUpdate_def)

lemma run_Finish_0:
  "goroutines (snd (run Sum512 (replicate n (Finish 0)) s)) = drop n (goroutines s)"
proof (induction n arbitrary: s)
  case 0
  show ?case by simp
next
  case (Suc n)
  have "goroutines (snd (run Sum512 (replicate (Suc n) (Finish 0)) s)) =
          drop n (goroutines (snd (step Sum512 (Finish 0) s)))"
    using Suc [of "snd (step Sum512 (Finish 0) s)"] by (simp only: replicate_Suc run_Cons snd_conv)
  also have "\<dots> = drop (Suc n) (goroutines s)"
    by (simp only: step_Finish_0 drop_drop) simp
  finally show ?case .
qed

lemma submissions_Finish: "submissions closed (replicate n (Finish 0)) = []"
  by (induction n) (simp_all add: submissions_def)

lemma drain_returns:
  assumes "consistent Sum512 pws s"
  shows "\<exists>s'. drain Sum512 [replicate (length (goroutines s)) (Finish 0)] s = Some s'"
proof -
  let ?evs = "replicate (length (goroutines s)) (Finish 0)"
  have "consistent Sum512 pws (snd (run Sum512 ?evs s))"
    using assms
  proof (induction "length (goroutines s)" arbitrary: s)
    case 0
    then show ?case by simp
  next
    case (Suc m)
    let ?s = "snd (step Sum512 (Finish 0) s)"
    have "consistent Sum512 (pws @ map fst (submissions (bShutdown s) [Finish 0])) ?s"
    proof (cases rule: step_cases [of s "Finish 0" Sum512])
      case (Issue pw micros)
      then show ?thesis by simp
    next
      case (Finish i A key pw B)
      then show ?thesis using consistent_finish [OF Suc.prems] by (simp add: submissions_def)
    next
      case Quiet
      then show ?thesis using Suc.prems by (simp add: submissions_def)
    qed
    then have c: "consistent Sum512 pws ?s" by (simp add: submissions_def)
    have "length (goroutines ?s) = m"
      using Suc(2) by (simp only: step_Finish_0) simp
    then have "m = length (goroutines ?s)" by simp
    from Suc(1) [OF this c] have "consistent Sum512 pws (snd (run Sum512 (replicate m (Finish 0)) ?s))"
      using \<open>length (goroutines ?s) = m\<close> by simp
    then show ?case using Suc(2) [symmetric] by (simp only: replicate_Suc run_Cons snd_conv)
  qed
  from drain_exit [OF this] run_Finish_0 [of Sum512 "length (goroutines s)" s]
  show ?thesis by simp
qed


lemma run_init_consistent:
  assumes "run Sum512 pre init = (ws, s)" "length pre < 2 ^ 63"
  shows "consistent Sum512 (map fst (submissions False pre)) s" "\<not> bShutdown s"
proof -
  have "consistent Sum512 ([] @ map fst (submissions (bShutdown init) pre)) (snd (run Sum512 pre init))"
    using assms(2) by (intro run_consistent consistent_init) simp
  then show "consistent Sum512 (map fst (submissions False pre)) s"
    using assms(1) by (simp add: init_def)
  show "\<not> bShutdown s"
    using run_flag [of Sum512 pre init] assms(1) by (simp add: init_def)
qed

text \<open>
  C1. \<^verbatim>\<open>doShutdown\<close> answers with the farewell only from a state in which every
  identifier given out so far, the decimal texts of 1 up to the counter, has its entry
  in the map and no executor is left; the counter then is at least what it was when
  the shutdown began. The loop leaves at once from a state where the number of entries
  equals the counter, and it leaves only from such a state. The steps of the other
  goroutines during the wait include submissions that had passed the flag before it
  was set; all steps together are fewer than \<open>2 ^ 63\<close>. That the loop does leave
  once the started executors have finished is \<open>drain_returns\<close>.
\<close>

theorem shutdown_waits:
  assumes "run Sum512 pre init = (ws, s)" "Method r = MethodGet"
    "doShutdown Sum512 sched s r = Some (w, s')"
    "length pre + length (concat sched) < 2 ^ 63"
  shows "w = reply (Text MsgFarewell)
         \<and> of_nat (length (resultMap s')) = requestID s'
         \<and> unat (requestID s) \<le> unat (requestID s')
         \<and> (\<forall>k. 1 \<le> k \<and> k \<le> unat (requestID s') \<longrightarrow>
                (\<exists>v. map_of (resultMap s') (formatBits k) = Some v))
         \<and> goroutines s' = []
         \<and> (\<forall>t. of_nat (length (resultMap t)) = requestID t \<longrightarrow> drain Sum512 sched t = Some t)"
proof -
  let ?p = "map fst (submissions False pre)"
  have c: "consistent Sum512 ?p (s\<lparr>bShutdown := True\<rparr>)"
    using run_init_consistent(1) [OF assms(1)] assms(4) by (simp add: consistent_flag)
  have b: "length ?p + length (concat sched) < 2 ^ 63"
    using assms(4) length_submissions [of False pre] by simp
  from assms(2,3) have d: "drain Sum512 sched (s\<lparr>bShutdown := True\<rparr>) = Some s'"
    and w: "w = reply (Text MsgFarewell)"
    by (auto simp: doShutdown_def Fprintf_MsgFarewell split: option.splits)
  from drain_Some [OF c b d] obtain pws' where
    p: "consistent Sum512 (?p @ pws') s'" "goroutines s' = []" by blast
  note e = consistentD [OF p(1)]
  have "unat (requestID s) = length ?p"
    using consistentD(1) [OF c] by simp
  then have m: "unat (requestID s) \<le> unat (requestID s')" using e(1) by simp
  have q: "of_nat (length (resultMap s')) = requestID s'"
    using drain_exit [OF p(1)] p(2) by simp
  have "\<exists>v. map_of (resultMap s') (formatBits k) = Some v"
    if "1 \<le> k \<and> k \<le> unat (requestID s')" for k
  proof -
    from that e(1) have "k - 1 < length (?p @ pws')" "Suc (k - 1) = k" by auto
    with consistent_complete [OF p(1,2), of "k - 1"] show ?thesis by simp
  qed
  moreover have "drain Sum512 sched t = Some t" if "of_nat (length (resultMap t)) = requestID t" for t
    using that by (cases sched) simp_all
  ultimately show ?thesis using w q m p(2) by blast
qed


lemmas eval_simps =
  run_Cons doHash_def getStats_def Let_def post_def query_def get_def init_def FormValue_def
  PasswordKey_def MethodGet_def MethodPost_def HashPath_def FormatInt_def formatBits_small
  digits_def delayAndUpdate_def Fprintf_def reply_def http_Error_def TrimPrefix_def

lemma shutdown_run:
  "doShutdown (\<lambda>_. 0)
     [[Hash (post ''x'') 3, InFlight (post ''late'') 4], [Finish 1], [Finish 0]]
     (snd (run (\<lambda>_. 0) [Hash (post ''abc123'') 7] init)) (get ''/shutdown'') =
   Some (reply (Text MsgFarewell),
         \<lparr>requestID = 2,
          resultMap = [(''2'', transform (\<lambda>_. 0) ''late''), (''1'', transform (\<lambda>_. 0) ''abc123'')],
          elapsedTime = 11, bShutdown = True, goroutines = []\<rparr>)"
  by (simp add: doShutdown_def MsgFarewell_def eval_simps)

theorem shutdown_waits_witness:
  "\<exists>s'. doShutdown (\<lambda>_. 0)
          [[Hash (post ''x'') 3, InFlight (post ''late'') 4], [Finish 1], [Finish 0]]
          (snd (run (\<lambda>_. 0) [Hash (post ''abc123'') 7] init)) (get ''/shutdown'') =
        Some (reply (Text MsgFarewell), s')
      \<and> requestID s' = 2 \<and> length (resultMap s') = 2 \<and> goroutines s' = []
      \<and> (\<exists>v. map_of (resultMap s') ''1'' = Some v)
      \<and> (\<exists>v. map_of (resultMap s') ''2'' = Some v)"
proof -
  let ?pre = "[Hash (post ''abc123'') 7]"
  let ?sched = "[[Hash (post ''x'') 3, InFlight (post ''late'') 4], [Finish 1], [Finish 0]]"
  have r: "run (\<lambda>_. 0) ?pre init = (fst (run (\<lambda>_. 0) ?pre init), snd (run (\<lambda>_. 0) ?pre init))"
    by simp
  have m: "Method (get ''/shutdown'') = MethodGet" by (simp add: get_def)
  have b: "length ?pre + length (concat ?sched) < 2 ^ 63" by simp
  from shutdown_waits [OF r m shutdown_run b] shutdown_run show ?thesis
    by (simp add: formatBits_small digits_def)
qed


text \<open>
  C5. In every state the service reaches, an entry of the map stays as it is through
  every later step, and through a shutdown; the started executors have pairwise
  different identifiers, none of which has an entry yet, so that the write of an
  executor is the first and only one for its identifier; the handlers themselves never
  write the map. All steps together are fewer than \<open>2 ^ 63\<close>.
\<close>

theorem entry_written_once:
  assumes "run Sum512 pre init = (ws, s)"
    "length pre + length evs + length (concat sched) < 2 ^ 63"
  shows "(map_of (resultMap s) key = Some v \<longrightarrow>
            map_of (resultMap (snd (run Sum512 evs s))) key = Some v
            \<and> (\<forall>r w s'. doShutdown Sum512 sched (snd (run Sum512 evs s)) r = Some (w, s') \<longrightarrow>
                  map_of (resultMap s') key = Some v))
         \<and> (\<forall>pw. (key, pw) \<in> set (goroutines s) \<longrightarrow> map_of (resultMap s) key = None)
         \<and> (\<forall>i < length (goroutines s).
               map_of (resultMap (snd (step Sum512 (Finish i) s))) (fst (goroutines s ! i)) =
                 Some (transform Sum512 (snd (goroutines s ! i))))
         \<and> distinct (map fst (goroutines s)) \<and> distinct (map fst (resultMap s))
         \<and> resultMap (snd (doHash s r micros)) = resultMap s
         \<and> resultMap (snd (getStats s r)) = resultMap s"
proof -
  let ?p = "map fst (submissions False pre)" and ?s = "snd (run Sum512 evs s)"
  have c: "consistent Sum512 ?p s"
    using run_init_consistent(1) [OF assms(1)] assms(2) by simp
  have b: "length ?p + length evs < 2 ^ 63"
    using assms(2) length_submissions [of False pre] by simp
  have 1: "map_of (resultMap ?s) key = Some v" if "map_of (resultMap s) key = Some v"
    using c b that by (rule run_entry)
  have 2: "map_of (resultMap s') key = Some v"
    if e: "map_of (resultMap s) key = Some v"
      and d: "doShutdown Sum512 sched ?s r' = Some (w, s')" for r' w s'
  proof (cases "Method r' = MethodGet")
    case False
    with d have "s' = ?s" by (simp add: doShutdown_def)
    with 1 [OF e] show ?thesis by simp
  next
    case True
    let ?q = "?p @ map fst (submissions (bShutdown s) evs)"
    have "consistent Sum512 ?q ?s" using c b by (rule run_consistent)
    then have c': "consistent Sum512 ?q (?s\<lparr>bShutdown := True\<rparr>)"
      by (simp add: consistent_flag)
    have b': "length ?q + length (concat sched) < 2 ^ 63"
      using assms(2) length_submissions [of False pre] length_submissions [of "bShutdown s" evs]
      by simp
    from True d have "drain Sum512 sched (?s\<lparr>bShutdown := True\<rparr>) = Some s'"
      by (auto simp: doShutdown_def split: option.splits)
    from drain_Some [OF c' b' this] 1 [OF e] show ?thesis by auto
  qed
  have 3: "map_of (resultMap s) key = None" if "(key, pw) \<in> set (goroutines s)" for pw
    using c that by (rule consistent_pending)
  have 4: "map_of (resultMap (snd (step Sum512 (Finish i) s))) (fst (goroutines s ! i)) =
             Some (transform Sum512 (snd (goroutines s ! i)))" if "i < length (goroutines s)" for i
    using that by (simp add: delayAndUpdate_def update_conv')
  show ?thesis
    using 1 2 3 4 consistent_distinct [OF c] doHash_resultMap getStats_resultMap by blast
qed


lemma written_run:
  "snd (run (\<lambda>_. 0) [Hash (post ''abc123'') 7, Finish 0] init) =
     \<lparr>requestID = 1, resultMap = [(''1'', transform (\<lambda>_. 0) ''abc123'')], elapsedTime = 7,
      bShutdown = False, goroutines = []\<rparr>"
  by (simp add: eval_simps)

theorem entry_written_once_witness:
  "map_of (resultMap (snd (run (\<lambda>_. 0) [Hash (post ''abc123'') 7, Finish 0] init))) ''1'' =
     Some (transform (\<lambda>_. 0) ''abc123'')
   \<and> map_of (resultMap (snd (run (\<lambda>_. 0) [Hash (post ''x'') 3, Finish 0]
          (snd (run (\<lambda>_. 0) [Hash (post ''abc123'') 7, Finish 0] init))))) ''1'' =
     Some (transform (\<lambda>_. 0) ''abc123'')"
proof -
  let ?pre = "[Hash (post ''abc123'') 7, Finish 0]" and ?evs = "[Hash (post ''x'') 3, Finish 0]"
  have r: "run (\<lambda>_. 0) ?pre init = (fst (run (\<lambda>_. 0) ?pre init), snd (run (\<lambda>_. 0) ?pre init))"
    by simp
  have b: "length ?pre + length ?evs + length (concat ([] :: event list list)) < 2 ^ 63" by simp
  have e: "map_of (resultMap (snd (run (\<lambda>_. 0) ?pre init))) ''1'' =
             Some (transform (\<lambda>_. 0) ''abc123'')"
    by (simp add: written_run)
  from entry_written_once [OF r b, of "''1''" "transform (\<lambda>_. 0) ''abc123''"] e
  show ?thesis by blast
qed

section \<open>Queries for finished tasks\<close>

lemma transform_nonempty: "transform Sum512 pw \<noteq> []"
  using length_transform [of Sum512 pw] by auto

lemma doHash_found:
  assumes "\<not> bShutdown s" "Method r = MethodGet"
    "map_of (resultMap s) (TrimPrefix (Path r) (HashPath @ ''/'')) = Some (transform Sum512 pw)"
  shows "doHash s r micros = (reply (Text (transform Sum512 pw)), s)"
  using assms by (simp add: doHash_def Let_def transform_nonempty Fprintf_transform)

lemma set_update_subset: "set (AList.update k v al) \<subseteq> insert (k, v) (set al)"
  by (induction al) auto

lemma step_hashed:
  assumes "\<forall>(k, v) \<in> set (resultMap s). \<exists>pw. v = transform Sum512 pw"
  shows "\<forall>(k, v) \<in> set (resultMap (snd (step Sum512 e s))). \<exists>pw. v = transform Sum512 pw"
proof (cases rule: step_cases [of s e Sum512])
  case (Issue pw micros)
  then show ?thesis using assms by simp
next
  case (Finish i A key pw B)
  then show ?thesis
    using assms set_update_subset [of key "transform Sum512 pw" "resultMap s"] by auto
next
  case Quiet
  then show ?thesis using assms by simp
qed

lemma run_hashed:
  assumes "\<forall>(k, v) \<in> set (resultMap s). \<exists>pw. v = transform Sum512 pw"
  shows "\<forall>(k, v) \<in> set (resultMap (snd (run Sum512 evs s))). \<exists>pw. v = transform Sum512 pw"
  using assms
proof (induction evs arbitrary: s)
  case Nil
  then show ?case by simp
next
  case (Cons e evs)
  from Cons.IH [OF step_hashed [OF Cons.prems]] show ?case by (simp add: run_Cons)
qed

text \<open>
  C10. Every value in the map of a state the service reaches is the hash text of some
  password, 88 characters long and so not empty, and a query for its key is answered
  with that value: the test \<^verbatim>\<open>len(result) > 0\<close> never takes a stored entry for a
  missing one.
\<close>

theorem stored_values_nonempty:
  assumes "run Sum512 evs init = (ws, s)" "map_of (resultMap s) key = Some v"
  shows "length v = 88 \<and> v \<noteq> [] \<and> (\<exists>pw. v = transform Sum512 pw)
         \<and> (\<forall>r micros. Method r = MethodGet \<and> TrimPrefix (Path r) (HashPath @ ''/'') = key \<longrightarrow>
               doHash s r micros = (reply (Text v), s))"
proof -
  have "\<forall>(k, v) \<in> set (resultMap init). \<exists>pw. v = transform Sum512 pw"
    by (simp add: init_def)
  from run_hashed [OF this, of evs] have "\<forall>(k, v) \<in> set (resultMap s). \<exists>pw. v = transform Sum512 pw"
    using assms(1) by simp
  with map_of_SomeD [OF assms(2)] obtain pw where v: "v = transform Sum512 pw" by auto
  have g: "\<not> bShutdown s"
    using run_flag [of Sum512 evs init] assms(1) by (simp add: init_def)
  have "doHash s r micros = (reply (Text v), s)"
    if "Method r = MethodGet \<and> TrimPrefix (Path r) (HashPath @ ''/'') = key" for r micros
    using doHash_found [OF g, of r Sum512 pw micros] that assms(2) v by simp
  moreover have "length v = 88" "v \<noteq> []"
    using length_transform [of Sum512 pw] v by auto
  ultimately show ?thesis using v by blast
qed

theorem stored_values_nonempty_witness:
  "length (transform (\<lambda>_. 0) ''abc123'') = 88
   \<and> doHash (snd (run (\<lambda>_. 0) [Hash (post ''abc123'') 7, Finish 0] init)) (query ''1'') 0 =
       (reply (Text (transform (\<lambda>_. 0) ''abc123'')),
        snd (run (\<lambda>_. 0) [Hash (post ''abc123'') 7, Finish 0] init))"
proof -
  let ?evs = "[Hash (post ''abc123'') 7, Finish 0]"
  have r: "run (\<lambda>_. 0) ?evs init = (fst (run (\<lambda>_. 0) ?evs init), snd (run (\<lambda>_. 0) ?evs init))"
    by simp
  have e: "map_of (resultMap (snd (run (\<lambda>_. 0) ?evs init))) ''1'' =
             Some (transform (\<lambda>_. 0) ''abc123'')"
    by (simp add: written_run)
  have q: "Method (query ''1'') = MethodGet \<and> TrimPrefix (Path (query ''1'')) (HashPath @ ''/'') = ''1''"
    by (simp add: TrimPrefix_query) (simp add: query_def)
  from stored_values_nonempty [OF r e] q show ?thesis by blast
qed


text \<open>
  C4, as the claim is written, fails: it promises the payload on every later query.
  Once a shutdown request has set the flag, the query for a finished task is answered
  503.
\<close>

theorem completed_query_counterexample:
  "doShutdown (\<lambda>_. 0) [] (snd (run (\<lambda>_. 0) [Hash (post ''abc123'') 7, Finish 0] init))
       (get ''/shutdown'') =
     Some (reply (Text MsgFarewell),
           \<lparr>requestID = 1, resultMap = [(''1'', transform (\<lambda>_. 0) ''abc123'')], elapsedTime = 7,
            bShutdown = True, goroutines = []\<rparr>)
   \<and> fst (doHash \<lparr>requestID = 1, resultMap = [(''1'', transform (\<lambda>_. 0) ''abc123'')],
                   elapsedTime = 7, bShutdown = True, goroutines = []\<rparr> (query ''1'') 0) =
       http_Error ErrShutdown StatusServiceUnavailable
   \<and> fst (doHash \<lparr>requestID = 1, resultMap = [(''1'', transform (\<lambda>_. 0) ''abc123'')],
                   elapsedTime = 7, bShutdown = True, goroutines = []\<rparr> (query ''1'') 0) \<noteq>
       reply (Text (transform (\<lambda>_. 0) ''abc123''))"
  by (simp add: written_run doShutdown_def get_def Fprintf_MsgFarewell)
     (simp add: doHash_def http_Error_def reply_def StatusServiceUnavailable_def StatusOK_def)

text \<open>
  C4, amended. Take a submission with password \<open>pw\<close> that the service accepts and
  answers with the identifier \<open>key\<close>. While the service is not shutting down (the runs
  below hold no shutdown request), from the moment its executor is no longer among the
  started ones, every query for \<open>key\<close>, after whatever further steps, is answered with
  the same text: the URL base64 text of the SHA-512 sum of the bytes of \<open>pw\<close>. All
  steps together are fewer than \<open>2 ^ 63\<close>.
\<close>

theorem completed_query_stable:
  assumes "run Sum512 pre init = (ws0, s0)"
    "submission False e = Some (pw, micros)"
    "step Sum512 e s0 = (Some w, s1)" "Body w = Text key"
    "run Sum512 evs s1 = (ws1, s2)" "key \<notin> fst ` set (goroutines s2)"
    "run Sum512 evs' s2 = (ws2, s3)"
    "Method r = MethodGet" "TrimPrefix (Path r) (HashPath @ ''/'') = key"
    "length pre + 1 + length evs + length evs' < 2 ^ 63"
  shows "doHash s3 r micros' = (reply (Text (transform Sum512 pw)), s3)
         \<and> transform Sum512 pw = EncodeToString (slice (Sum512 (bytes pw)))"
proof -
  let ?p = "map fst (submissions False pre)"
  have c0: "consistent Sum512 ?p s0" and g0: "\<not> bShutdown s0"
    using run_init_consistent [OF assms(1)] assms(10) by simp_all
  have n: "Suc (length ?p) < 2 ^ 63"
    using assms(10) length_submissions [of False pre] by simp
  have sub: "submission (bShutdown s0) e = Some (pw, micros)" using assms(2) g0 by simp
  from step_submission [OF sub, of Sum512] assms(3)
  have w: "w = reply (Text (FormatInt (requestID s0 + 1)))" and s1: "s1 = snd (step Sum512 e s0)"
    by simp_all
  have "unat (requestID s0 + 1) = Suc (length ?p)"
    using consistentD(1,2) [OF c0] unat_succ [of "requestID s0"] by simp
  with n have "FormatInt (requestID s0 + 1) = formatBits (Suc (length ?p))"
    using FormatInt_small [of "requestID s0 + 1"] by simp
  with w assms(4) have key: "key = formatBits (Suc (length ?p))" by (simp add: reply_def)
  have "consistent Sum512 (?p @ map fst (submissions (bShutdown s0) [e])) (snd (step Sum512 e s0))"
    using c0 n by (rule step_consistent)
  then have c1: "consistent Sum512 (?p @ [pw]) s1"
    using sub s1 by (simp add: submissions_def)
  have g1: "bShutdown s1 = bShutdown s0" using s1 step_flag [of Sum512 e s0] by simp
  let ?q = "(?p @ [pw]) @ map fst (submissions (bShutdown s1) evs)"
  have "length (?p @ [pw]) + length evs < 2 ^ 63"
    using assms(10) length_submissions [of False pre] by simp
  from run_consistent [OF c1 this] have c2: "consistent Sum512 ?q s2"
    using assms(5) by simp
  have "length ?p < length ?q" "?q ! length ?p = pw" by (simp_all add: nth_append)
  with consistentD(5) [OF c2, of "length ?p"] key assms(6)
  have e2: "map_of (resultMap s2) key = Some (transform Sum512 pw)" by force
  have "length ?q + length evs' < 2 ^ 63"
    using assms(10) length_submissions [of False pre] length_submissions [of "bShutdown s1" evs]
    by simp
  from run_entry [OF c2 this e2] have e3: "map_of (resultMap s3) key = Some (transform Sum512 pw)"
    using assms(7) by simp
  have "bShutdown s3 = bShutdown s0"
    using run_flag [of Sum512 evs' s2] run_flag [of Sum512 evs s1] g1 assms(5,7) by simp
  with g0 have g3: "\<not> bShutdown s3" by simp
  from doHash_found [OF g3 assms(8), of Sum512 pw micros'] e3 assms(9)
  show ?thesis by (simp add: transform_def)
qed


lemma stable_step:
  "step (\<lambda>_. 0) (Hash (post ''abc123'') 7) (snd (run (\<lambda>_. 0) [Hash (post ''first'') 1] init)) =
     (Some (reply (Text ''2'')),
      \<lparr>requestID = 2, resultMap = [], elapsedTime = 8, bShutdown = False,
       goroutines = [(''1'', ''first''), (''2'', ''abc123'')]\<rparr>)"
  by (simp add: eval_simps)

lemma stable_run:
  "snd (run (\<lambda>_. 0) [Hash (query ''2'') 0, Finish 1]
     \<lparr>requestID = 2, resultMap = [], elapsedTime = 8, bShutdown = False,
      goroutines = [(''1'', ''first''), (''2'', ''abc123'')]\<rparr>) =
   \<lparr>requestID = 2, resultMap = [(''2'', transform (\<lambda>_. 0) ''abc123'')], elapsedTime = 8,
    bShutdown = False, goroutines = [(''1'', ''first'')]\<rparr>"
  by (simp add: eval_simps)

theorem completed_query_stable_witness:
  "doHash (snd (run (\<lambda>_. 0) [Hash (query ''2'') 0, Finish 0]
             \<lparr>requestID = 2, resultMap = [(''2'', transform (\<lambda>_. 0) ''abc123'')],
              elapsedTime = 8, bShutdown = False, goroutines = [(''1'', ''first'')]\<rparr>))
          (query ''2'') 0 =
     (reply (Text (transform (\<lambda>_. 0) ''abc123'')),
      snd (run (\<lambda>_. 0) [Hash (query ''2'') 0, Finish 0]
             \<lparr>requestID = 2, resultMap = [(''2'', transform (\<lambda>_. 0) ''abc123'')],
              elapsedTime = 8, bShutdown = False, goroutines = [(''1'', ''first'')]\<rparr>))"
proof -
  let ?pre = "[Hash (post ''first'') 1]"
  let ?s1 = "\<lparr>requestID = 2, resultMap = [], elapsedTime = 8, bShutdown = False,
       goroutines = [(''1'', ''first''), (''2'', ''abc123'')]\<rparr>"
  let ?s2 = "\<lparr>requestID = 2, resultMap = [(''2'', transform (\<lambda>_. 0) ''abc123'')],
       elapsedTime = 8, bShutdown = False, goroutines = [(''1'', ''first'')]\<rparr>"
  let ?evs = "[Hash (query ''2'') 0, Finish 1]" and ?evs' = "[Hash (query ''2'') 0, Finish 0]"
  have a1: "run (\<lambda>_. 0) ?pre init = (fst (run (\<lambda>_. 0) ?pre init), snd (run (\<lambda>_. 0) ?pre init))"
    by simp
  have a2: "submission False (Hash (post ''abc123'') 7) = Some (''abc123'', 7)"
    by (simp add: post_def FormValue_def MethodPost_def PasswordKey_def)
  have a4: "Body (reply (Text ''2'')) = Text ''2''" by (simp add: reply_def)
  have a5: "run (\<lambda>_. 0) ?evs ?s1 = (fst (run (\<lambda>_. 0) ?evs ?s1), ?s2)"
    using stable_run by (simp add: prod_eq_iff)
  have a6: "''2'' \<notin> fst ` set (goroutines ?s2)" by simp
  have a7: "run (\<lambda>_. 0) ?evs' ?s2 = (fst (run (\<lambda>_. 0) ?evs' ?s2), snd (run (\<lambda>_. 0) ?evs' ?s2))"
    by simp
  have a8: "Method (query ''2'') = MethodGet" by (simp add: query_def)
  have a9: "TrimPrefix (Path (query ''2'')) (HashPath @ ''/'') = ''2''" by (rule TrimPrefix_query)
  have a10: "length ?pre + 1 + length ?evs + length ?evs' < 2 ^ 63" by simp
  from completed_query_stable [OF a1 a2 stable_step a4 a5 a6 a7 a8 a9 a10, of 0]
  show ?thesis by (rule conjunct1)
qed

section \<open>Statistics\<close>

lemma run_elapsed:
  "elapsedTime (snd (run Sum512 evs s)) =
     elapsedTime s + sum_list (map snd (submissions (bShutdown s) evs))"
proof (induction evs arbitrary: s)
  case Nil
  show ?case by (simp add: submissions_def)
next
  case (Cons e evs)
  note ih = Cons [of "snd (step Sum512 e s)", simplified step_flag]
  show ?case
  proof (cases rule: step_cases [of s e Sum512])
    case (Issue pw micros)
    then show ?thesis using ih by (simp add: run_Cons submissions_def)
  next
    case (Finish i A key pw B)
    then show ?thesis using ih by (simp add: run_Cons submissions_def)
  next
    case Quiet
    then show ?thesis using ih by (simp add: run_Cons submissions_def)
  qed
qed

lemma sint_word_of_int_small:
  assumes "0 \<le> z" "z < 2 ^ 63"
  shows "sint (word_of_int z :: int64) = z"
proof -
  have "- (2 ^ 63) \<le> z" using assms(1) by (rule order_trans [rotated]) simp
  then have "signed_take_bit 63 z = z" using assms(2) by (rule signed_take_bit_int_eq_self)
  moreover have "sint (word_of_int z :: int64) = signed_take_bit (LENGTH(64) - 1) z"
    by (rule sint_sbintrunc')
  ultimately show ?thesis by simp
qed

lemma sint_add_small:
  assumes "0 \<le> sint (a :: int64)" "0 \<le> sint (b :: int64)" "sint a + sint b < 2 ^ 63"
  shows "sint (a + b) = sint a + sint b"
proof -
  have "a + b = word_of_int (sint a + sint b)" by simp
  moreover have "0 \<le> sint a + sint b" using assms(1,2) by simp
  ultimately show ?thesis using sint_word_of_int_small [OF _ assms(3)] by simp
qed

lemma sdiv_nonneg: "0 \<le> (k :: int) \<Longrightarrow> 0 < l \<Longrightarrow> k sdiv l = k div l"
  by (cases "k = 0") (simp_all add: signed_divide_int_def)

lemma sint_sum_list:
  assumes "\<forall>m \<in> set ms. 0 \<le> sint (m :: int64)" "(\<Sum>m\<leftarrow>ms. sint m) < 2 ^ 63"
  shows "sint (sum_list ms) = (\<Sum>m\<leftarrow>ms. sint m)"
  using assms
proof (induction ms)
  case Nil
  show ?case by simp
next
  case (Cons m ms)
  have nn: "0 \<le> (\<Sum>m\<leftarrow>ms. sint m)" using Cons.prems(1) by (intro sum_list_nonneg) auto
  have m: "0 \<le> sint m" using Cons.prems(1) by simp
  have "(\<Sum>m\<leftarrow>ms. sint m) < 2 ^ 63" using Cons.prems(2) m by simp
  with Cons have ih: "sint (sum_list ms) = (\<Sum>m\<leftarrow>ms. sint m)" by simp
  have "sint (m + sum_list ms) = sint m + sint (sum_list ms)"
    using m nn Cons.prems(2) by (intro sint_add_small) (simp_all add: ih)
  then show ?case by (simp add: ih)
qed

lemma sint_quo:
  assumes "0 \<le> sint x" "0 < sint y"
  shows "sint (quo x y) = sint x div sint y"
proof -
  have "sint x div sint y \<le> sint x"
    using assms by (metis div_0 int_div_le_self linorder_not_less order_antisym_conv)
  moreover have "sint x < 2 ^ 63" using sint_lt [of x] by simp
  ultimately have "sint x div sint y < 2 ^ 63" by simp
  moreover have "0 \<le> sint x div sint y" using assms by (simp add: pos_imp_zdiv_nonneg_iff)
  ultimately show ?thesis
    using assms by (simp add: quo_def sdiv_nonneg sint_word_of_int_small)
qed


lemma snapshot_eq:
  "snapshot s =
     \<lparr>Total = requestID s,
      Average = (if requestID s \<noteq> 0 then quo (elapsedTime s) (requestID s) else 0)\<rparr>"
  by (simp add: snapshot_def Let_def)

text \<open>
  C7. After a run from the initial state, the \<^verbatim>\<open>RequestStat\<close> that \<^verbatim>\<open>getStats\<close>
  computes, and answers to a \<^verbatim>\<open>GET\<close> as JSON text, has as total the number of
  accepted submissions and as average the sum of their measured times divided by that
  number, rounded down, or 0 when there was no submission. The measured times are not
  negative (they are durations); they and the submissions stay in the range of
  \<^verbatim>\<open>int64\<close>.
\<close>

theorem stats_average:
  assumes "run Sum512 evs init = (ws, s)" "Method r = MethodGet" "length evs < 2 ^ 63"
    "\<forall>m \<in> set (map snd (submissions False evs)). 0 \<le> sint m"
    "(\<Sum>m\<leftarrow>map snd (submissions False evs). sint m) < 2 ^ 63"
  shows "getStats s r = (reply (Text (Marshal (snapshot s))), s)
         \<and> Total (snapshot s) = requestID s
         \<and> sint (Total (snapshot s)) = int (length (submissions False evs))
         \<and> sint (elapsedTime s) = (\<Sum>m\<leftarrow>map snd (submissions False evs). sint m)
         \<and> sint (Average (snapshot s)) =
             (if length (submissions False evs) = 0 then 0
              else (\<Sum>m\<leftarrow>map snd (submissions False evs). sint m)
                     div int (length (submissions False evs)))"
proof -
  let ?subs = "submissions False evs"
  let ?L = "\<Sum>m\<leftarrow>map snd ?subs. sint m"
  have c: "consistent Sum512 (map fst ?subs) s" and g: "\<not> bShutdown s"
    using run_init_consistent [OF assms(1,3)] by simp_all
  have u: "unat (requestID s) = length ?subs" "length ?subs < 2 ^ 63"
    using consistentD(1,2) [OF c] by simp_all
  then have t: "sint (requestID s) = int (length ?subs)"
    using sint_small [of "requestID s"] by simp
  have "elapsedTime s = sum_list (map snd ?subs)"
    using run_elapsed [of Sum512 evs init] assms(1) by (simp add: init_def)
  then have e: "sint (elapsedTime s) = ?L"
    using sint_sum_list [OF assms(4,5)] by simp
  have nn: "0 \<le> ?L" using assms(4) by (intro sum_list_nonneg) auto
  have z: "(requestID s = 0) = (length ?subs = 0)"
    using u(1) by (simp add: unat_eq_0 [symmetric])
  have a: "sint (Average (snapshot s)) = (if length ?subs = 0 then 0 else ?L div int (length ?subs))"
  proof (cases "length ?subs = 0")
    case True
    then show ?thesis using z by (simp add: snapshot_eq)
  next
    case False
    then have "0 < sint (requestID s)" using t by simp
    moreover have "0 \<le> sint (elapsedTime s)" using e nn by simp
    ultimately have "sint (quo (elapsedTime s) (requestID s)) = ?L div int (length ?subs)"
      using sint_quo [of "elapsedTime s" "requestID s"] e t by simp
    then show ?thesis using False z by (simp add: snapshot_eq)
  qed
  have "Total (snapshot s) = requestID s" by (simp add: snapshot_eq)
  moreover have "getStats s r = (reply (Text (Marshal (snapshot s))), s)"
    using assms(2) g by (simp add: getStats_def)
  ultimately show ?thesis using a t e by simp
qed

lemma stats_submissions:
  "submissions False
     [Hash (post ''abc123'') 7, Stats (get ''/stats''), Hash (post ''hunter2'') 4, Finish 0] =
   [(''abc123'', 7), (''hunter2'', 4)]"
  by (simp add: submissions_def post_def FormValue_def MethodPost_def PasswordKey_def)

lemma stats_run:
  "getStats (snd (run (\<lambda>_. 0)
      [Hash (post ''abc123'') 7, Stats (get ''/stats''), Hash (post ''hunter2'') 4, Finish 0] init))
     (get ''/stats'') =
   (reply (Text ([CHR ''{'', CHR 0x22] @ ''total'' @ [CHR 0x22, CHR '':''] @ ''2'' @
                 [CHR '','', CHR 0x22] @ ''average'' @ [CHR 0x22, CHR '':''] @ ''5'' @ [CHR ''}''])),
    snd (run (\<lambda>_. 0)
      [Hash (post ''abc123'') 7, Stats (get ''/stats''), Hash (post ''hunter2'') 4, Finish 0] init))"
  by (simp add: eval_simps snapshot_eq Marshal_def quo_def signed_divide_int_def)

theorem stats_average_witness:
  "getStats (snd (run (\<lambda>_. 0)
      [Hash (post ''abc123'') 7, Stats (get ''/stats''), Hash (post ''hunter2'') 4, Finish 0] init))
     (get ''/stats'') =
   (reply (Text ([CHR ''{'', CHR 0x22] @ ''total'' @ [CHR 0x22, CHR '':''] @ ''2'' @
                 [CHR '','', CHR 0x22] @ ''average'' @ [CHR 0x22, CHR '':''] @ ''5'' @ [CHR ''}''])),
    snd (run (\<lambda>_. 0)
      [Hash (post ''abc123'') 7, Stats (get ''/stats''), Hash (post ''hunter2'') 4, Finish 0] init))
   \<and> sint (Total (snapshot (snd (run (\<lambda>_. 0)
      [Hash (post ''abc123'') 7, Stats (get ''/stats''), Hash (post ''hunter2'') 4, Finish 0] init)))) = 2
   \<and> sint (Average (snapshot (snd (run (\<lambda>_. 0)
      [Hash (post ''abc123'') 7, Stats (get ''/stats''), Hash (post ''hunter2'') 4, Finish 0] init)))) = 5"
proof -
  let ?evs = "[Hash (post ''abc123'') 7, Stats (get ''/stats''), Hash (post ''hunter2'') 4, Finish 0]"
  have a1: "run (\<lambda>_. 0) ?evs init = (fst (run (\<lambda>_. 0) ?evs init), snd (run (\<lambda>_. 0) ?evs init))"
    by simp
  have a2: "Method (get ''/stats'') = MethodGet" by (simp add: get_def)
  have a3: "length ?evs < 2 ^ 63" by simp
  have a4: "\<forall>m \<in> set (map snd (submissions False ?evs)). 0 \<le> sint m"
    by (simp add: stats_submissions)
  have a5: "(\<Sum>m\<leftarrow>map snd (submissions False ?evs). sint m) < 2 ^ 63"
    by (simp add: stats_submissions)
  note t = stats_average [OF a1 a2 a3 a4 a5]
  have "sint (Total (snapshot (snd (run (\<lambda>_. 0) ?evs init)))) = 2"
    using t [THEN conjunct2, THEN conjunct2, THEN conjunct1] by (simp add: stats_submissions)
  moreover have "sint (Average (snapshot (snd (run (\<lambda>_. 0) ?evs init)))) = 5"
    using t [THEN conjunct2, THEN conjunct2, THEN conjunct2, THEN conjunct2]
    by (simp add: stats_submissions)
  ultimately show ?thesis using stats_run by simp
qed

end
